theory Spec2Isabelle
  imports Main
begin

section \<open>The storefront purchase indexer\<close>

text \<open>
  A shallow embedding of the dApp example's indexing server: \<open>processPurchases\<close>,
  \<open>indexPastPurchases\<close>, the live subscription callback and \<open>start\<close>.

  The server talks to a chain node through the web3 library. The library and the node are
  not part of the program: they appear here as the fields of a record \<open>env\<close> of
  functions, each returning either an error (a rejected promise, a thrown exception) or a
  value. The answers of the node are taken to be the same on every call.
\<close>

subsection \<open>JavaScript numbers and \<open>parseInt\<close>\<close>

text \<open>
  The receipt's \<open>quantity\<close> and \<open>total\<close> are JavaScript numbers (IEEE doubles)
  obtained by \<open>parseInt\<close> from the decimal strings web3 returns. A double holds
  every integer up to \<open>2 ^ 53\<close> exactly; a larger integer is rounded to the nearest double,
  ties to the even significand. Only integral values, NaN and the infinities can come out of
  \<open>parseInt\<close>; negative zero is identified with zero.
\<close>

datatype number = NaN | Num int | PosInfinity | NegInfinity

fun bitlen :: "nat \<Rightarrow> nat" where
  "bitlen n = (if n = 0 then 0 else Suc (bitlen (n div 2)))"

definition roundToDouble :: "nat \<Rightarrow> nat" where
  "roundToDouble n =
     (if n < 2 ^ 53 then n
      else let e = bitlen n - 53;
               q = n div 2 ^ e;
               r = n mod 2 ^ e;
               h = 2 ^ (e - 1)
           in if h < r \<or> (r = h \<and> odd q) then (q + 1) * 2 ^ e else q * 2 ^ e)"

definition toNumber :: "bool \<Rightarrow> nat \<Rightarrow> number" where
  "toNumber negative n =
     (let m = roundToDouble n
      in if 2 ^ 1024 \<le> m then (if negative then NegInfinity else PosInfinity)
         else Num (if negative then - int m else int m))"

definition isWhiteSpace :: "char \<Rightarrow> bool" where
  "isWhiteSpace c = ((of_char c :: nat) \<in> {9, 10, 11, 12, 13, 32})"

definition digitValue :: "char \<Rightarrow> nat option" where
  "digitValue c =
     (let n = (of_char c :: nat) in
      if 48 \<le> n \<and> n \<le> 57 then Some (n - 48)
      else if 97 \<le> n \<and> n \<le> 122 then Some (n - 87)
      else if 65 \<le> n \<and> n \<le> 90 then Some (n - 55)
      else None)"

definition radixDigit :: "nat \<Rightarrow> char \<Rightarrow> bool" where
  "radixDigit R c = (case digitValue c of Some d \<Rightarrow> d < R | None \<Rightarrow> False)"

definition mathInt :: "nat \<Rightarrow> string \<Rightarrow> nat" where
  "mathInt R Z = foldl (\<lambda>a c. a * R + (case digitValue c of Some d \<Rightarrow> d | None \<Rightarrow> 0)) 0 Z"

text \<open>
  \<open>parseInt(string)\<close> with no radix argument, as ECMAScript defines it: leading white
  space is dropped, a sign is read, a \<open>0x\<close> prefix selects radix 16, the longest prefix of
  digits is the value, and no digit at all gives NaN. Strings are strings of bytes here, and
  the white space is that of ASCII (tab, line feed, vertical tab, form feed, carriage return,
  space).
\<close>

definition parseInt :: "string \<Rightarrow> number" where
  "parseInt inputString =
     (let S = dropWhile isWhiteSpace inputString;
          negative = (S \<noteq> [] \<and> hd S = CHR ''-'');
          S1 = (if S \<noteq> [] \<and> (hd S = CHR ''+'' \<or> hd S = CHR ''-'') then tl S else S);
          hex = (take 2 S1 = ''0x'' \<or> take 2 S1 = ''0X'');
          R = (if hex then 16 else 10);
          S2 = (if hex then drop 2 S1 else S1);
          Z = takeWhile (radixDigit R) S2
      in if Z = [] then NaN else toNumber negative (mathInt R Z))"

text \<open>\<open>Number\<close> to string inside a template literal, for the integers below \<open>10 ^ 21\<close>
  (every block number is one): the decimal digits.\<close>

fun decimal :: "nat \<Rightarrow> string" where
  "decimal n = (if n < 10 then [char_of (48 + n)] else decimal (n div 10) @ [char_of (48 + n mod 10)])"

definition numberToString :: "int \<Rightarrow> string" where
  "numberToString n = (if n < 0 then CHR ''-'' # decimal (nat (- n)) else decimal (nat n))"

subsection \<open>Data\<close>

text \<open>Errors: what a rejected promise or a thrown exception carries. \<open>TypeError\<close> is
  JavaScript's own, raised on reading a property of \<open>null\<close>.\<close>

datatype error = DecodeError | NotFound | TransportError | TypeError

text \<open>web3's \<open>Log\<close> and \<open>Transaction\<close>, with the fields the server reads. The
  transaction's \<open>hash\<close>, \<open>from\<close> and \<open>value\<close> are strings.\<close>

record Log =
  address :: string
  data :: string
  topics :: "string list"
  transactionHash :: string
  blockNumber :: int
  logIndex :: int

record Transaction =
  tx_hash :: string
  tx_from :: string
  tx_value :: string

record PurchaseReceipt =
  receipt_from :: string
  item :: string
  quantity :: number
  total :: number
  transactionId :: string

record AbiInput =
  abi_name :: string
  abi_type :: string
  abi_indexed :: bool

record Filter =
  filter_address :: string
  filter_topics :: "string list"

text \<open>The argument of \<open>getPastLogs\<close>: the filter spread into an object with the two
  block bounds.\<close>

record PastLogsOptions = Filter +
  fromBlock :: int
  toBlock :: int

text \<open>
  The environment: the configured contract address, the \<open>ItemPurchased\<close> inputs read
  from the ABI file, and the web3 calls. \<open>getTransaction\<close> may reject, or resolve to
  \<open>null\<close> (\<open>None\<close>) for a hash the node does not know. \<open>decodeLog\<close> throws or
  yields the fields \<open>item\<close> and \<open>quantity\<close>, which the code types as strings. The
  code hands it the inputs, the data and all the topics of the log, and makes no check of its
  own on the log.
\<close>

record env =
  STOREFRONT_ADDRESS :: string
  ITEM_PURCHASED_ABI_INPUT :: "AbiInput list"
  sha3 :: "string \<Rightarrow> string"
  getBlockNumber :: "error + int"
  getPastLogs :: "PastLogsOptions \<Rightarrow> error + Log list"
  getTransaction :: "string \<Rightarrow> error + Transaction option"
  decodeLog :: "AbiInput list \<Rightarrow> string \<Rightarrow> string list \<Rightarrow> error + string \<times> string"

text \<open>
  The state: the in-memory table \<open>STOREFRONT_PURCHASES\<close>, the lines written with
  \<open>console.log\<close>, and the trace of the \<open>getPastLogs\<close> and \<open>subscribe\<close> calls
  issued so far.
\<close>

record state =
  STOREFRONT_PURCHASES :: "string \<rightharpoonup> PurchaseReceipt"
  console :: "string list"
  pastLogsRequests :: "PastLogsOptions list"
  subscriptions :: "Filter list"

definition PURCHASE_FILTER :: "env \<Rightarrow> Filter" where
  "PURCHASE_FILTER w =
     \<lparr>filter_address = STOREFRONT_ADDRESS w,
      filter_topics = [sha3 w ''ItemPurchased(string,uint256)'']\<rparr>"

subsection \<open>\<open>processPurchases\<close>\<close>

definition makeReceipt :: "string \<Rightarrow> string \<Rightarrow> Transaction \<Rightarrow> PurchaseReceipt" where
  "makeReceipt item' quantity' tx =
     \<lparr>receipt_from = tx_from tx,
      item = item',
      quantity = parseInt quantity',
      total = parseInt (tx_value tx),
      transactionId = tx_hash tx\<rparr>"

definition purchaseLine :: "string \<Rightarrow> string \<Rightarrow> Transaction \<Rightarrow> string" where
  "purchaseLine item' quantity' tx =
     ''['' @ tx_hash tx @ ''] '' @ quantity' @ '' of '' @ [CHR 0x22] @ item' @ [CHR 0x22]
       @ '' were purchased by '' @ tx_from tx @ '' for '' @ tx_value tx @ '' wei''"

text \<open>The body of the loop, for one log: decode, look the transaction up, build the
  receipt, store it under \<open>tx.hash\<close>, write the line. An error leaves the state as it
  was.\<close>

definition processLog :: "env \<Rightarrow> Log \<Rightarrow> state \<Rightarrow> error + state" where
  "processLog w log s =
     (case decodeLog w (ITEM_PURCHASED_ABI_INPUT w) (data log) (topics log) of
        Inl e \<Rightarrow> Inl e
      | Inr (item', quantity') \<Rightarrow>
          (case getTransaction w (transactionHash log) of
             Inl e \<Rightarrow> Inl e
           | Inr None \<Rightarrow> Inl TypeError
           | Inr (Some tx) \<Rightarrow>
               Inr (s\<lparr>STOREFRONT_PURCHASES :=
                        (STOREFRONT_PURCHASES s)(tx_hash tx \<mapsto> makeReceipt item' quantity' tx),
                      console := console s @ [purchaseLine item' quantity' tx]\<rparr>)))"

text \<open>The loop over the batch. The first error ends it: the result is the state reached so
  far and the error.\<close>

fun processPurchases :: "env \<Rightarrow> Log list \<Rightarrow> state \<Rightarrow> state \<times> error option" where
  "processPurchases w [] s = (s, None)"
| "processPurchases w (log # purchaseLogs) s =
     (case processLog w log s of
        Inl e \<Rightarrow> (s, Some e)
      | Inr s' \<Rightarrow> processPurchases w purchaseLogs s')"

subsection \<open>\<open>indexPastPurchases\<close>\<close>

text \<open>
  The loop of \<open>indexPastPurchases\<close>, with its counter \<open>i\<close> as an argument. Block numbers
  are JavaScript numbers holding integers far below \<open>2 ^ 53\<close>, where the arithmetic is exact:
  they are integers here. A request enters the trace when it is issued, before its answer is
  known. An error of the request or of the batch ends the loop.
\<close>

function indexPastPurchases_from :: "env \<Rightarrow> int \<Rightarrow> int \<Rightarrow> state \<Rightarrow> state \<times> error option" where
  "indexPastPurchases_from w i latestBlock s =
     (if i < latestBlock then
        (let fromBlock' = i;
             toBlock' = fromBlock' + 500000;
             options = Filter.extend (PURCHASE_FILTER w)
                         (PastLogsOptions.fields fromBlock' toBlock');
             s1 = s\<lparr>pastLogsRequests := pastLogsRequests s @ [options]\<rparr>
         in case getPastLogs w options of
              Inl e \<Rightarrow> (s1, Some e)
            | Inr purchaseLogs \<Rightarrow>
                (case processPurchases w purchaseLogs s1 of
                   (s2, Some e) \<Rightarrow> (s2, Some e)
                 | (s2, None) \<Rightarrow> indexPastPurchases_from w (i + 500000) latestBlock s2))
      else (s, None))"
  by pat_completeness auto
termination
  by (relation "measure (\<lambda>(w, i, latestBlock, s). nat (latestBlock - i))") auto

declare indexPastPurchases_from.simps [simp del]

definition indexPastPurchases :: "env \<Rightarrow> int \<Rightarrow> state \<Rightarrow> state \<times> error option" where
  "indexPastPurchases w latestBlock s = indexPastPurchases_from w 0 latestBlock s"

subsection \<open>The live subscription and \<open>start\<close>\<close>

text \<open>
  The callback given to \<open>subscribe\<close>. With an error it throws it. Otherwise it calls
  \<open>processPurchases\<close> on the one log without awaiting it: the callback returns, and a
  failure of the processing is a rejected promise nobody handles.
\<close>

datatype outcome = Returned | Threw error | Unhandled error

definition subscription_callback :: "env \<Rightarrow> error option \<Rightarrow> Log \<Rightarrow> state \<Rightarrow> state \<times> outcome" where
  "subscription_callback w err newPurchase s =
     (case err of
        Some e \<Rightarrow> (s, Threw e)
      | None \<Rightarrow>
          (case processPurchases w [newPurchase] s of
             (s', Some e) \<Rightarrow> (s', Unhandled e)
           | (s', None) \<Rightarrow> (s', Returned)))"

text \<open>
  \<open>start\<close>: the block number, the line that reports it, the subscription, then the scan.
  The callbacks of the subscription run between the steps of the scan. Each of them, like
  each step of the scan, touches the table only in the part of the loop body that follows
  the lookup, which runs without interruption: a run of the server is a sequence of
  deliveries of batches, one after the other.
\<close>

definition connectedLine :: "int \<Rightarrow> string" where
  "connectedLine currentBlockNumber =
     ''Connected to web3 '' @ [CHR 0xF0, CHR 0x9F, CHR 0x9A, CHR 0x80]
       @ '' Current block is '' @ numberToString currentBlockNumber"

definition start :: "env \<Rightarrow> state \<Rightarrow> state \<times> error option" where
  "start w s =
     (case getBlockNumber w of
        Inl e \<Rightarrow> (s, Some e)
      | Inr currentBlockNumber \<Rightarrow>
          indexPastPurchases w currentBlockNumber
            (s\<lparr>console := console s @ [connectedLine currentBlockNumber],
               subscriptions := subscriptions s @ [PURCHASE_FILTER w]\<rparr>))"

definition initial :: state where
  "initial = \<lparr>STOREFRONT_PURCHASES = Map.empty, console = [], pastLogsRequests = [],
              subscriptions = []\<rparr>"

subsection \<open>Auxiliary notions for the statements\<close>

text \<open>The request of the scan whose window starts at block \<open>i\<close>, and the \<open>k\<close>-th
  request of a scan from block 0. \<open>windowCount H\<close> is \<open>H / 500000\<close> rounded up
  (and 0 for \<open>H \<le> 0\<close>).\<close>

definition requestAt :: "env \<Rightarrow> int \<Rightarrow> PastLogsOptions" where
  "requestAt w i = Filter.extend (PURCHASE_FILTER w) (PastLogsOptions.fields i (i + 500000))"

definition backfillWindow :: "env \<Rightarrow> nat \<Rightarrow> PastLogsOptions" where
  "backfillWindow w k = requestAt w (int k * 500000)"

definition windowCount :: "int \<Rightarrow> nat" where
  "windowCount H = nat ((H + 499999) div 500000)"

text \<open>What the two lookups of the loop body give for a log: the decoded fields and the
  transaction, or the first error.\<close>

definition resolve :: "env \<Rightarrow> Log \<Rightarrow> error + string \<times> string \<times> Transaction" where
  "resolve w log =
     (case decodeLog w (ITEM_PURCHASED_ABI_INPUT w) (data log) (topics log) of
        Inl e \<Rightarrow> Inl e
      | Inr (item', quantity') \<Rightarrow>
          (case getTransaction w (transactionHash log) of
             Inl e \<Rightarrow> Inl e
           | Inr None \<Rightarrow> Inl TypeError
           | Inr (Some tx) \<Rightarrow> Inr (item', quantity', tx)))"

text \<open>For a batch: the logs processed before the first failure, the table entries written
  for them in order, the lines written for them in order, and the error that ended the
  batch, if any.\<close>

fun processed :: "env \<Rightarrow> Log list \<Rightarrow> Log list" where
  "processed w [] = []"
| "processed w (l # ls) =
     (case resolve w l of Inl e \<Rightarrow> [] | Inr t \<Rightarrow> l # processed w ls)"

fun upserts :: "env \<Rightarrow> Log list \<Rightarrow> (string \<times> PurchaseReceipt) list" where
  "upserts w [] = []"
| "upserts w (l # ls) =
     (case resolve w l of
        Inl e \<Rightarrow> []
      | Inr (item', quantity', tx) \<Rightarrow> (tx_hash tx, makeReceipt item' quantity' tx) # upserts w ls)"

fun linesOf :: "env \<Rightarrow> Log list \<Rightarrow> string list" where
  "linesOf w [] = []"
| "linesOf w (l # ls) =
     (case resolve w l of
        Inl e \<Rightarrow> []
      | Inr (item', quantity', tx) \<Rightarrow> purchaseLine item' quantity' tx # linesOf w ls)"

fun failure :: "env \<Rightarrow> Log list \<Rightarrow> error option" where
  "failure w [] = None"
| "failure w (l # ls) = (case resolve w l of Inl e \<Rightarrow> Some e | Inr t \<Rightarrow> failure w ls)"

text \<open>The table entry a log gives when both lookups succeed.\<close>

definition entryOf :: "env \<Rightarrow> Log \<Rightarrow> (string \<times> PurchaseReceipt) option" where
  "entryOf w l =
     (case resolve w l of
        Inl e \<Rightarrow> None
      | Inr (item', quantity', tx) \<Rightarrow> Some (tx_hash tx, makeReceipt item' quantity' tx))"

text \<open>The console line a log gives when both lookups succeed.\<close>

definition lineOf :: "env \<Rightarrow> Log \<Rightarrow> string option" where
  "lineOf w l =
     (case resolve w l of
        Inl e \<Rightarrow> None
      | Inr (item', quantity', tx) \<Rightarrow> Some (purchaseLine item' quantity' tx))"

text \<open>A log that decodes and whose lookup returns the transaction with the hash asked for.\<close>

definition delivers :: "env \<Rightarrow> Log \<Rightarrow> bool" where
  "delivers w l =
     (case resolve w l of Inl e \<Rightarrow> False | Inr (item', quantity', tx) \<Rightarrow> tx_hash tx = transactionHash l)"

text \<open>A sequence of deliveries, each a call of \<open>processPurchases\<close> on a batch: the windows
  of the backfill and the single logs of the live feed, in the order in which they reach the
  table.\<close>

definition deliver :: "env \<Rightarrow> Log list list \<Rightarrow> state \<Rightarrow> state" where
  "deliver w batches s = foldl (\<lambda>s' batch. fst (processPurchases w batch s')) s batches"

text \<open>The invariant of the table: an entry is stored under its own \<open>transactionId\<close>, which
  is the hash of a transaction the lookup returns, and its sender and total come from that
  transaction.\<close>

definition ledger_inv :: "env \<Rightarrow> state \<Rightarrow> bool" where
  "ledger_inv w s =
     (\<forall>k r. STOREFRONT_PURCHASES s k = Some r \<longrightarrow>
        transactionId r = k \<and>
        (\<exists>h tx. getTransaction w h = Inr (Some tx) \<and> tx_hash tx = k \<and>
                 receipt_from r = tx_from tx \<and> total r = parseInt (tx_value tx)))"

text \<open>A non-empty string of decimal digits, as web3 gives for an amount of wei.\<close>

definition decimalDigits :: "string \<Rightarrow> bool" where
  "decimalDigits v = (v \<noteq> [] \<and> list_all (radixDigit 10) v)"

subsection \<open>A small chain for the examples\<close>

definition sneakersLog :: Log where
  "sneakersLog = \<lparr>address = ''0xStore'', data = ''sneakers,2'', topics = [''0xsig''],
                   transactionHash = ''0xabc'', blockNumber = 7, logIndex = 0\<rparr>"

definition lostLog :: Log where
  "lostLog = \<lparr>address = ''0xStore'', data = ''sneakers,2'', topics = [''0xsig''],
               transactionHash = ''0xlost'', blockNumber = 5, logIndex = 0\<rparr>"

definition bigLog :: Log where
  "bigLog = \<lparr>address = ''0xStore'', data = ''sneakers,2'', topics = [''0xsig''],
              transactionHash = ''0xbig'', blockNumber = 9, logIndex = 0\<rparr>"

definition junkLog :: Log where
  "junkLog = \<lparr>address = ''0xStore'', data = ''junk'', topics = [''0xsig''],
               transactionHash = ''0xabc'', blockNumber = 8, logIndex = 0\<rparr>"

definition strayLog :: Log where
  "strayLog = \<lparr>address = ''0xStore'', data = ''sneakers,2'', topics = [''0xother''],
                transactionHash = ''0xabc'', blockNumber = 8, logIndex = 1\<rparr>"

definition demoEnv :: env where
  "demoEnv =
     \<lparr>STOREFRONT_ADDRESS = ''0xStore'',
      ITEM_PURCHASED_ABI_INPUT =
        [\<lparr>abi_name = ''item'', abi_type = ''string'', abi_indexed = False\<rparr>,
         \<lparr>abi_name = ''quantity'', abi_type = ''uint256'', abi_indexed = False\<rparr>],
      sha3 = (\<lambda>s. ''0xsig''),
      getBlockNumber = Inr 1200000,
      getPastLogs = (\<lambda>options. if fromBlock options = 0 then Inr [lostLog, sneakersLog] else Inr []),
      getTransaction =
        (\<lambda>h. if h = ''0xabc''
             then Inr (Some \<lparr>tx_hash = ''0xabc'', tx_from = ''0xA'', tx_value = ''300''\<rparr>)
             else if h = ''0xbig''
             then Inr (Some \<lparr>tx_hash = ''0xbig'', tx_from = ''0xB'',
                              tx_value = ''9007199254740993''\<rparr>)
             else Inl NotFound),
      decodeLog =
        (\<lambda>inputs d t. if d = ''sneakers,2'' then Inr (''sneakers'', ''2'') else Inl DecodeError)\<rparr>"

definition quietEnv :: env where
  "quietEnv = demoEnv\<lparr>getPastLogs := (\<lambda>options. Inr [])\<rparr>"

text \<open>A table that already holds two receipts.\<close>

definition staleState :: state where
  "staleState =
     initial\<lparr>STOREFRONT_PURCHASES :=
       [''0xabc'' \<mapsto> \<lparr>receipt_from = ''0xA'', item = ''hat'', quantity = Num 1, total = Num 5,
                      transactionId = ''0xabc''\<rparr>,
        ''0xold'' \<mapsto> \<lparr>receipt_from = ''0xC'', item = ''hat'', quantity = Num 1, total = Num 5,
                      transactionId = ''0xold''\<rparr>]\<rparr>"

section \<open>Properties\<close>

subsection \<open>The batch loop in closed form\<close>

lemma processLog_resolve:
  "processLog w l s =
     (case resolve w l of
        Inl e \<Rightarrow> Inl e
      | Inr (item', quantity', tx) \<Rightarrow>
          Inr (s\<lparr>STOREFRONT_PURCHASES :=
                   (STOREFRONT_PURCHASES s)(tx_hash tx \<mapsto> makeReceipt item' quantity' tx),
                 console := console s @ [purchaseLine item' quantity' tx]\<rparr>))"
  by (simp add: processLog_def resolve_def split: sum.split prod.split option.split)

lemma add_single: "m ++ ([k \<mapsto> v] ++ n) = m(k \<mapsto> v) ++ n"
  by (rule ext) (simp add: map_add_def split: option.split)

lemma processPurchases_closed:
  "processPurchases w ls s =
     (s\<lparr>STOREFRONT_PURCHASES := STOREFRONT_PURCHASES s ++ map_of (rev (upserts w ls)),
        console := console s @ linesOf w ls\<rparr>,
      failure w ls)"
proof (induction ls arbitrary: s)
  case Nil
  show ?case by simp
next
  case (Cons l ls)
  show ?case
  proof (cases "resolve w l")
    case (Inl e)
    then show ?thesis by (simp add: processLog_resolve)
  next
    case (Inr t)
    obtain it q tx where t: "t = (it, q, tx)" by (cases t) auto
    show ?thesis
      by (simp add: processLog_resolve Inr t Cons.IH add_single) (simp add: fun_upd_def)
  qed
qed

lemma processPurchases_ledger:
  "STOREFRONT_PURCHASES (fst (processPurchases w ls s)) =
     STOREFRONT_PURCHASES s ++ map_of (rev (upserts w ls))"
  by (simp add: processPurchases_closed)

lemma processPurchases_console:
  "console (fst (processPurchases w ls s)) = console s @ linesOf w ls"
  by (simp add: processPurchases_closed)

lemma processPurchases_requests:
  "pastLogsRequests (fst (processPurchases w ls s)) = pastLogsRequests s"
  by (simp add: processPurchases_closed)

lemma processPurchases_subscriptions:
  "subscriptions (fst (processPurchases w ls s)) = subscriptions s"
  by (simp add: processPurchases_closed)

lemma processPurchases_failure: "snd (processPurchases w ls s) = failure w ls"
  by (simp add: processPurchases_closed)

subsection \<open>The scan\<close>

lemma scan_done: "\<not> i < H \<Longrightarrow> indexPastPurchases_from w i H s = (s, None)"
  by (subst indexPastPurchases_from.simps) simp

lemma scan_step:
  "i < H \<Longrightarrow>
     indexPastPurchases_from w i H s =
       (case getPastLogs w (requestAt w i) of
          Inl e \<Rightarrow> (s\<lparr>pastLogsRequests := pastLogsRequests s @ [requestAt w i]\<rparr>, Some e)
        | Inr purchaseLogs \<Rightarrow>
            (case processPurchases w purchaseLogs
                    (s\<lparr>pastLogsRequests := pastLogsRequests s @ [requestAt w i]\<rparr>) of
               (s2, Some e) \<Rightarrow> (s2, Some e)
             | (s2, None) \<Rightarrow> indexPastPurchases_from w (i + 500000) H s2))"
  unfolding requestAt_def by (subst indexPastPurchases_from.simps) (simp add: Let_def)

lemma count_step:
  "i < H \<Longrightarrow>
     nat ((H - i + 499999) div 500000) = Suc (nat ((H - (i + 500000) + 499999) div 500000))"
  by (simp add: nat_eq_iff) linarith

lemma scan_requests:
  "indexPastPurchases_from w i H s = (s', r) \<Longrightarrow>
     \<exists>m \<le> nat ((H - i + 499999) div 500000).
        pastLogsRequests s' =
          pastLogsRequests s @ map (\<lambda>k. requestAt w (i + int k * 500000)) [0..<m] \<and>
        (r = None \<longrightarrow> m = nat ((H - i + 499999) div 500000))"
proof (induction w i H s rule: indexPastPurchases_from.induct)
  case (1 w i H s)
  let ?n = "nat ((H - i + 499999) div 500000)"
  let ?n' = "nat ((H - (i + 500000) + 499999) div 500000)"
  let ?s1 = "s\<lparr>pastLogsRequests := pastLogsRequests s @ [requestAt w i]\<rparr>"
  show ?case
  proof (cases "i < H")
    case False
    with "1.prems" have "s' = s" "r = None" by (simp_all add: scan_done)
    moreover from False have "?n = 0" by simp
    ultimately show ?thesis by simp
  next
    case True
    note n = count_step[OF True]
    have one: "map (\<lambda>k. requestAt w (i + int k * 500000)) [0..<Suc 0] = [requestAt w i]"
      by simp
    show ?thesis
    proof (cases "getPastLogs w (requestAt w i)")
      case (Inl e)
      with True "1.prems" have "s' = ?s1" "r = Some e" by (simp_all add: scan_step)
      then show ?thesis using n one by (intro exI[of _ "Suc 0"]) simp
    next
      case (Inr ls)
      obtain s2 r2 where p: "processPurchases w ls ?s1 = (s2, r2)" by force
      have s2: "pastLogsRequests s2 = pastLogsRequests s @ [requestAt w i]"
        using processPurchases_requests[of w ls ?s1] p by simp
      show ?thesis
      proof (cases r2)
        case (Some e)
        with True "1.prems" Inr p have "s' = s2" "r = Some e" by (simp_all add: scan_step)
        then show ?thesis using n one s2 by (intro exI[of _ "Suc 0"]) simp
      next
        case None
        with True "1.prems" Inr p
        have r: "indexPastPurchases_from w (i + 500000) H s2 = (s', r)"
          by (simp add: scan_step)
        from "1.IH"[OF True refl refl refl refl, of ls s2 None] Inr p None r
        obtain m where m: "m \<le> ?n'"
          "pastLogsRequests s' =
             pastLogsRequests s2 @ map (\<lambda>k. requestAt w (i + 500000 + int k * 500000)) [0..<m]"
          "r = None \<longrightarrow> m = ?n'"
          by (auto simp: requestAt_def)
        have "map (\<lambda>k. requestAt w (i + int k * 500000)) [0..<Suc m] =
                requestAt w i # map (\<lambda>k. requestAt w (i + 500000 + int k * 500000)) [0..<m]"
          unfolding map_upt_Suc by (simp add: algebra_simps)
        with m s2 n show ?thesis by (intro exI[of _ "Suc m"]) simp
      qed
    qed
  qed
qed

lemma backfill_requests:
  "indexPastPurchases w H s = (s', r) \<Longrightarrow>
     \<exists>m \<le> windowCount H.
        pastLogsRequests s' = pastLogsRequests s @ map (backfillWindow w) [0..<m] \<and>
        (r = None \<longrightarrow> m = windowCount H)"
proof -
  have "backfillWindow w = (\<lambda>k. requestAt w (0 + int k * 500000))"
    by (rule ext) (simp add: backfillWindow_def)
  then show "indexPastPurchases w H s = (s', r) \<Longrightarrow> ?thesis"
    using scan_requests[of w 0 H s s' r]
    by (simp add: indexPastPurchases_def windowCount_def)
qed

lemma window_bounds:
  "fromBlock (backfillWindow w k) = int k * 500000"
  "toBlock (backfillWindow w k) = int k * 500000 + 500000"
  "Filter.truncate (backfillWindow w k) = PURCHASE_FILTER w"
  by (simp_all add: backfillWindow_def requestAt_def Filter.extend_def PastLogsOptions.fields_def
        Filter.truncate_def PURCHASE_FILTER_def)

lemma window_starts_below: "k < windowCount H \<Longrightarrow> int k * 500000 < H"
  unfolding windowCount_def by linarith

lemma window_covers:
  assumes "0 \<le> b" "b < H"
  shows "nat (b div 500000) < windowCount H"
    and "int (nat (b div 500000)) * 500000 \<le> b"
    and "b < int (nat (b div 500000)) * 500000 + 500000"
  using assms unfolding windowCount_def by (simp_all add: nat_less_iff) linarith+

lemma windowCount_ceiling:
  "0 < H \<Longrightarrow> int (windowCount H) * 500000 - 500000 < H \<and> H \<le> int (windowCount H) * 500000"
  unfolding windowCount_def by (simp) linarith

lemma windowCount_nonpositive: "H \<le> 0 \<Longrightarrow> windowCount H = 0"
  unfolding windowCount_def by simp

subsection \<open>Failures\<close>

lemma processLog_fails: "resolve w l = Inl e \<Longrightarrow> processLog w l s = Inl e"
  by (simp add: processLog_resolve)

lemma processPurchases_single_fail:
  "resolve w l = Inl e \<Longrightarrow> processPurchases w (l # rest) s = (s, Some e)"
  by (simp add: processLog_fails)

lemma processPurchases_append:
  "processPurchases w (xs @ ys) s =
     (case processPurchases w xs s of
        (s1, None) \<Rightarrow> processPurchases w ys s1
      | (s1, Some e) \<Rightarrow> (s1, Some e))"
proof (induction xs arbitrary: s)
  case Nil
  show ?case by simp
next
  case (Cons x xs)
  show ?case
  proof (cases "processLog w x s")
    case (Inl e)
    then show ?thesis by simp
  next
    case (Inr s')
    then show ?thesis by (simp add: Cons.IH)
  qed
qed

lemma processPurchases_abort:
  "processPurchases w pre s = (s1, None) \<Longrightarrow> resolve w l = Inl e \<Longrightarrow>
     processPurchases w (pre @ l # rest) s = (s1, Some e)"
  by (simp add: processPurchases_append processLog_fails)

lemma scan_abort:
  assumes "i < H"
      and "getPastLogs w (requestAt w i) = Inr (pre @ l # rest)"
      and "failure w pre = None"
      and "resolve w l = Inl e"
  shows "indexPastPurchases_from w i H s =
           (fst (processPurchases w pre (s\<lparr>pastLogsRequests := pastLogsRequests s @ [requestAt w i]\<rparr>)),
            Some e)"
proof -
  let ?s1 = "s\<lparr>pastLogsRequests := pastLogsRequests s @ [requestAt w i]\<rparr>"
  have "processPurchases w pre ?s1 = (fst (processPurchases w pre ?s1), None)"
    using assms(3) processPurchases_failure[of w pre ?s1] by (metis prod.collapse)
  from processPurchases_abort[OF this assms(4), of rest]
  show ?thesis using assms(1,2) by (simp add: scan_step)
qed

lemma callback_fail:
  "resolve w l = Inl e \<Longrightarrow> subscription_callback w None l s = (s, Unhandled e)"
  by (simp add: subscription_callback_def processLog_fails)

lemma lookup_fails:
  assumes "decodeLog w (ITEM_PURCHASED_ABI_INPUT w) (data l) (topics l) = Inr (it, q)"
      and "getTransaction w (transactionHash l) = Inl e \<or>
           getTransaction w (transactionHash l) = Inr None \<and> e = TypeError"
  shows "resolve w l = Inl e"
  using assms by (auto simp: resolve_def)

lemma decode_fails:
  "decodeLog w (ITEM_PURCHASED_ABI_INPUT w) (data l) (topics l) = Inl e \<Longrightarrow> resolve w l = Inl e"
  by (simp add: resolve_def)

subsection \<open>The entries of a batch\<close>

lemma resolve_lookup:
  "resolve w l = Inr (it, q, tx) \<Longrightarrow> getTransaction w (transactionHash l) = Inr (Some tx)"
  by (auto simp: resolve_def split: sum.splits prod.splits option.splits)

lemma single_delivery:
  "resolve w l = Inr (it, q, tx) \<Longrightarrow>
     STOREFRONT_PURCHASES (fst (processPurchases w [l] s)) (tx_hash tx) = Some (makeReceipt it q tx)"
  by (simp add: processPurchases_ledger del: processPurchases.simps)

lemma processPurchases_single_ok:
  "resolve w l = Inr (it, q, tx) \<Longrightarrow>
     processPurchases w [l] s =
       (s\<lparr>STOREFRONT_PURCHASES := (STOREFRONT_PURCHASES s)(tx_hash tx \<mapsto> makeReceipt it q tx),
          console := console s @ [purchaseLine it q tx]\<rparr>, None)"
  by (simp add: processLog_resolve)

lemma upserts_origin:
  "(k, r) \<in> set (upserts w ls) \<Longrightarrow>
     \<exists>l \<in> set ls. \<exists>it q tx. resolve w l = Inr (it, q, tx) \<and> k = tx_hash tx \<and>
                             r = makeReceipt it q tx"
proof (induction ls)
  case Nil
  then show ?case by simp
next
  case (Cons x ls)
  show ?case
  proof (cases "resolve w x")
    case (Inl e)
    with Cons.prems show ?thesis by simp
  next
    case (Inr t)
    obtain it q tx where t: "t = (it, q, tx)" by (cases t) auto
    from Cons.prems Inr t
    have "(k, r) = (tx_hash tx, makeReceipt it q tx) \<or> (k, r) \<in> set (upserts w ls)" by simp
    then show ?thesis
    proof
      assume "(k, r) = (tx_hash tx, makeReceipt it q tx)"
      with Inr t show ?thesis by auto
    next
      assume "(k, r) \<in> set (upserts w ls)"
      from Cons.IH[OF this] show ?thesis by auto
    qed
  qed
qed

lemma ledger_entry_cases:
  "STOREFRONT_PURCHASES (fst (processPurchases w ls s)) k = STOREFRONT_PURCHASES s k \<or>
   (\<exists>l \<in> set ls. \<exists>it q tx. resolve w l = Inr (it, q, tx) \<and> k = tx_hash tx \<and>
        STOREFRONT_PURCHASES (fst (processPurchases w ls s)) k = Some (makeReceipt it q tx))"
proof (cases "map_of (rev (upserts w ls)) k")
  case None
  then show ?thesis by (simp add: processPurchases_ledger map_add_def)
next
  case (Some r)
  then have "(k, r) \<in> set (upserts w ls)" using map_of_SomeD by fastforce
  from upserts_origin[OF this] Some show ?thesis
    by (simp add: processPurchases_ledger map_add_def)
qed

lemma ledger_grows:
  "dom (STOREFRONT_PURCHASES s) \<subseteq> dom (STOREFRONT_PURCHASES (fst (processPurchases w ls s)))"
  by (simp add: processPurchases_ledger)

subsection \<open>The processed prefix of a batch\<close>

lemma processed_entries: "upserts w ls = map (\<lambda>l. the (entryOf w l)) (processed w ls)"
proof (induction ls)
  case Nil
  show ?case by simp
next
  case (Cons x ls)
  then show ?case by (cases "resolve w x") (auto simp: entryOf_def)
qed

lemma processed_lines: "map Some (linesOf w ls) = map (lineOf w) (processed w ls)"
proof (induction ls)
  case Nil
  show ?case by simp
next
  case (Cons x ls)
  then show ?case by (cases "resolve w x") (auto simp: lineOf_def)
qed

lemma processed_resolved:
  "l \<in> set (processed w ls) \<Longrightarrow>
     \<exists>it q tx. resolve w l = Inr (it, q, tx) \<and>
               entryOf w l = Some (tx_hash tx, makeReceipt it q tx)"
proof (induction ls)
  case Nil
  then show ?case by simp
next
  case (Cons x ls)
  then show ?case by (cases "resolve w x") (auto simp: entryOf_def)
qed

lemma processed_prefix: "\<exists>rest. ls = processed w ls @ rest"
proof (induction ls)
  case Nil
  show ?case by simp
next
  case (Cons x ls)
  then show ?case by (cases "resolve w x") auto
qed

lemma processed_all: "failure w ls = None \<Longrightarrow> processed w ls = ls"
proof (induction ls)
  case Nil
  show ?case by simp
next
  case (Cons x ls)
  then show ?case by (cases "resolve w x") auto
qed

lemma processed_stops:
  "failure w ls = Some e \<Longrightarrow> \<exists>l rest. ls = processed w ls @ l # rest \<and> resolve w l = Inl e"
proof (induction ls)
  case Nil
  then show ?case by simp
next
  case (Cons x ls)
  show ?case
  proof (cases "resolve w x")
    case (Inl e')
    with Cons.prems show ?thesis by auto
  next
    case (Inr t)
    with Cons.prems have "failure w ls = Some e" by simp
    from Cons.IH[OF this] obtain l rest where "ls = processed w ls @ l # rest" "resolve w l = Inl e"
      by blast
    with Inr show ?thesis by auto
  qed
qed

subsection \<open>The example chain\<close>

lemma quiet_scan:
  "indexPastPurchases quietEnv 1200000 s =
     (s\<lparr>pastLogsRequests := pastLogsRequests s @ map (backfillWindow quietEnv) [0, 1, 2]\<rparr>, None)"
  by (simp add: indexPastPurchases_def scan_step scan_done quietEnv_def backfillWindow_def)

lemma demo_sneakers:
  "resolve demoEnv sneakersLog =
     Inr (''sneakers'', ''2'', \<lparr>tx_hash = ''0xabc'', tx_from = ''0xA'', tx_value = ''300''\<rparr>)"
  by (simp add: resolve_def demoEnv_def sneakersLog_def)

lemma demo_lost: "resolve demoEnv lostLog = Inl NotFound"
  by (simp add: resolve_def demoEnv_def lostLog_def)

lemma demo_big:
  "resolve demoEnv bigLog =
     Inr (''sneakers'', ''2'',
          \<lparr>tx_hash = ''0xbig'', tx_from = ''0xB'', tx_value = ''9007199254740993''\<rparr>)"
  by (simp add: resolve_def demoEnv_def bigLog_def)

lemma demo_values:
  "parseInt ''300'' = Num 300" "parseInt ''2'' = Num 2"
  "parseInt ''9007199254740993'' = Num 9007199254740992"
  "mathInt 10 ''9007199254740993'' = 9007199254740993"
  "mathInt 10 ''300'' = 300"
  "decimalDigits ''300''"
  by (simp_all add: parseInt_def isWhiteSpace_def radixDigit_def digitValue_def mathInt_def
        toNumber_def roundToDouble_def decimalDigits_def Let_def)

lemma demo_scan:
  "indexPastPurchases demoEnv 1200000 initial =
     (initial\<lparr>pastLogsRequests := [requestAt demoEnv 0]\<rparr>, Some NotFound)"
proof -
  have r: "resolve demoEnv lostLog = Inl NotFound"
    by (simp add: resolve_def demoEnv_def lostLog_def)
  have g: "getPastLogs demoEnv (requestAt demoEnv 0) = Inr ([] @ lostLog # [sneakersLog])"
    by (simp add: demoEnv_def requestAt_def Filter.extend_def PastLogsOptions.fields_def)
  have "indexPastPurchases_from demoEnv 0 1200000 initial =
          (fst (processPurchases demoEnv []
                  (initial\<lparr>pastLogsRequests := pastLogsRequests initial @ [requestAt demoEnv 0]\<rparr>)),
           Some NotFound)"
    by (rule scan_abort[OF _ g _ r]) simp_all
  then show ?thesis by (simp add: indexPastPurchases_def initial_def)
qed

subsection \<open>C1: the windows of the backfill\<close>

text \<open>
  Claim C1, as the code has it. A scan up to \<open>H\<close> issues the requests
  \<open>backfillWindow w 0, backfillWindow w 1, \<dots>\<close> in this order and nothing else: all
  \<open>windowCount H\<close> of them when it completes, a prefix of them when a request or a batch
  fails. The \<open>k\<close>-th request has \<open>fromBlock = 500000 k\<close> and \<open>toBlock = fromBlock +
  500000\<close>, with the purchase filter. The \<open>toBlock\<close> of a request is the \<open>fromBlock\<close> of
  the next: as half-open ranges \<open>[fromBlock, toBlock)\<close> the windows neither overlap nor leave
  a gap (with a \<open>toBlock\<close> that is itself queried, two neighbours share that one block).
  Every window starts below \<open>H\<close>, and together they cover every block of \<open>[0, H)\<close>. The
  count is \<open>H / 500000\<close> rounded up, and zero for \<open>H \<le> 0\<close>. The \<open>toBlock\<close> of a window
  is not cut at \<open>H\<close>.
\<close>

theorem backfill_windows:
  "(\<exists>m \<le> windowCount H.
      pastLogsRequests (fst (indexPastPurchases w H s)) =
        pastLogsRequests s @ map (backfillWindow w) [0..<m] \<and>
      (snd (indexPastPurchases w H s) = None \<longrightarrow> m = windowCount H)) \<and>
   (\<forall>k. fromBlock (backfillWindow w k) = int k * 500000 \<and>
        toBlock (backfillWindow w k) = fromBlock (backfillWindow w k) + 500000 \<and>
        toBlock (backfillWindow w k) = fromBlock (backfillWindow w (Suc k)) \<and>
        Filter.truncate (backfillWindow w k) = PURCHASE_FILTER w) \<and>
   (\<forall>j k. j < k \<longrightarrow> toBlock (backfillWindow w j) \<le> fromBlock (backfillWindow w k)) \<and>
   (\<forall>k < windowCount H. fromBlock (backfillWindow w k) < H) \<and>
   (\<forall>b. 0 \<le> b \<and> b < H \<longrightarrow>
        (\<exists>k < windowCount H. fromBlock (backfillWindow w k) \<le> b \<and> b < toBlock (backfillWindow w k))) \<and>
   (H \<le> 0 \<longrightarrow> windowCount H = 0) \<and>
   (0 < H \<longrightarrow> int (windowCount H) * 500000 - 500000 < H \<and> H \<le> int (windowCount H) * 500000)"
proof (intro conjI)
  show "\<exists>m \<le> windowCount H.
      pastLogsRequests (fst (indexPastPurchases w H s)) =
        pastLogsRequests s @ map (backfillWindow w) [0..<m] \<and>
      (snd (indexPastPurchases w H s) = None \<longrightarrow> m = windowCount H)"
    using backfill_requests[of w H s "fst (indexPastPurchases w H s)" "snd (indexPastPurchases w H s)"]
    by simp
  show "\<forall>k. fromBlock (backfillWindow w k) = int k * 500000 \<and>
        toBlock (backfillWindow w k) = fromBlock (backfillWindow w k) + 500000 \<and>
        toBlock (backfillWindow w k) = fromBlock (backfillWindow w (Suc k)) \<and>
        Filter.truncate (backfillWindow w k) = PURCHASE_FILTER w"
    by (simp add: window_bounds)
  show "\<forall>j k. j < k \<longrightarrow> toBlock (backfillWindow w j) \<le> fromBlock (backfillWindow w k)"
  proof (intro allI impI)
    fix j k :: nat
    assume "j < k"
    then have "int j + 1 \<le> int k" by simp
    then have "(int j + 1) * 500000 \<le> int k * 500000" by (rule mult_right_mono) simp
    then show "toBlock (backfillWindow w j) \<le> fromBlock (backfillWindow w k)"
      by (simp add: window_bounds algebra_simps)
  qed
  show "\<forall>k < windowCount H. fromBlock (backfillWindow w k) < H"
    by (simp add: window_bounds window_starts_below)
  show "\<forall>b. 0 \<le> b \<and> b < H \<longrightarrow>
        (\<exists>k < windowCount H. fromBlock (backfillWindow w k) \<le> b \<and> b < toBlock (backfillWindow w k))"
  proof (intro allI impI)
    fix b :: int
    assume b: "0 \<le> b \<and> b < H"
    then show "\<exists>k < windowCount H. fromBlock (backfillWindow w k) \<le> b \<and> b < toBlock (backfillWindow w k)"
      using window_covers[of b H]
      by (intro exI[of _ "nat (b div 500000)"]) (simp add: window_bounds)
  qed
  show "H \<le> 0 \<longrightarrow> windowCount H = 0"
    by (simp add: windowCount_nonpositive)
  show "0 < H \<longrightarrow> int (windowCount H) * 500000 - 500000 < H \<and> H \<le> int (windowCount H) * 500000"
    using windowCount_ceiling[of H] by simp
qed

text \<open>The scan of a chain with no purchases up to block 1200000: three requests, the last
  one from block 1000000 to block 1500000.\<close>

theorem backfill_windows_witness:
  "windowCount 1200000 = 3 \<and>
   snd (indexPastPurchases quietEnv 1200000 initial) = None \<and>
   pastLogsRequests (fst (indexPastPurchases quietEnv 1200000 initial)) =
     map (backfillWindow quietEnv) [0..<3] \<and>
   (\<exists>k < 3. fromBlock (backfillWindow quietEnv k) \<le> 1100000 \<and>
            1100000 < toBlock (backfillWindow quietEnv k)) \<and>
   fromBlock (backfillWindow quietEnv 2) < 1200000 \<and>
   toBlock (backfillWindow quietEnv 2) = 1500000"
proof -
  have n: "windowCount 1200000 = 3" by (simp add: windowCount_def)
  have ok: "snd (indexPastPurchases quietEnv 1200000 initial) = None" by (simp add: quiet_scan)
  note T = backfill_windows[of 1200000 quietEnv initial]
  from T have "\<forall>b. 0 \<le> b \<and> b < 1200000 \<longrightarrow>
        (\<exists>k < windowCount 1200000. fromBlock (backfillWindow quietEnv k) \<le> b \<and>
                                    b < toBlock (backfillWindow quietEnv k))"
    by blast
  then have "0 \<le> (1100000::int) \<and> (1100000::int) < 1200000 \<longrightarrow>
        (\<exists>k < windowCount 1200000. fromBlock (backfillWindow quietEnv k) \<le> 1100000 \<and>
                                    1100000 < toBlock (backfillWindow quietEnv k))"
    by (rule spec)
  then have cover: "\<exists>k < 3. fromBlock (backfillWindow quietEnv k) \<le> 1100000 \<and>
                           1100000 < toBlock (backfillWindow quietEnv k)"
    by (simp add: n)
  from T have "\<forall>k < windowCount 1200000. fromBlock (backfillWindow quietEnv k) < 1200000"
    by blast
  then have below: "fromBlock (backfillWindow quietEnv 2) < 1200000"
    by (simp add: n)
  from T ok n have reqs: "pastLogsRequests (fst (indexPastPurchases quietEnv 1200000 initial)) =
     map (backfillWindow quietEnv) [0..<3]"
    by (auto simp: initial_def)
  from T have "toBlock (backfillWindow quietEnv 2) = fromBlock (backfillWindow quietEnv 2) + 500000"
    by blast
  moreover from T have "fromBlock (backfillWindow quietEnv 2) = int 2 * 500000"
    by blast
  ultimately have past: "toBlock (backfillWindow quietEnv 2) = 1500000"
    by simp
  from n ok reqs cover below past show ?thesis by blast
qed

text \<open>
  Claim C1 as stated asks for the windows \<open>[0, 500000)\<close>, \<open>[500000, 1000000)\<close>,
  \<open>[1000000, 1200000)\<close> at \<open>H = 1200000\<close>, none extending past \<open>H\<close>. The third request
  of the code ends at 1500000.
\<close>

theorem backfill_windows_counterexample:
  "map fromBlock (pastLogsRequests (fst (indexPastPurchases quietEnv 1200000 initial)))
     = [0, 500000, 1000000] \<and>
   map toBlock (pastLogsRequests (fst (indexPastPurchases quietEnv 1200000 initial)))
     = [500000, 1000000, 1500000] \<and>
   map toBlock (pastLogsRequests (fst (indexPastPurchases quietEnv 1200000 initial)))
     \<noteq> [500000, 1000000, 1200000]"
  by (simp add: quiet_scan initial_def window_bounds)

subsection \<open>C2: deliveries in any order, any number of times\<close>

lemma deliver_ledger:
  "STOREFRONT_PURCHASES (deliver w batches s) =
     STOREFRONT_PURCHASES s ++ map_of (rev (concat (map (upserts w) batches)))"
proof (induction batches arbitrary: s)
  case Nil
  show ?case by (simp add: deliver_def)
next
  case (Cons b batches)
  have "deliver w (b # batches) s = deliver w batches (fst (processPurchases w b s))"
    by (simp add: deliver_def)
  then show ?case
    by (simp add: Cons.IH processPurchases_ledger)
qed

lemma delivers_entry:
  "delivers w l \<Longrightarrow>
     \<exists>it q tx. resolve w l = Inr (it, q, tx) \<and> tx_hash tx = transactionHash l \<and>
               entryOf w l = Some (transactionHash l, makeReceipt it q tx)"
  by (auto simp: delivers_def entryOf_def split: sum.splits prod.splits)

lemma upserts_Cons:
  "delivers w l \<Longrightarrow> upserts w (l # ls) = the (entryOf w l) # upserts w ls"
  by (auto simp: delivers_def entryOf_def split: sum.splits prod.splits)

lemma upserts_append:
  "\<forall>l \<in> set xs. delivers w l \<Longrightarrow> upserts w (xs @ ys) = upserts w xs @ upserts w ys"
  by (induction xs) (simp_all add: upserts_Cons del: upserts.simps(2))

lemma upserts_concat:
  "\<forall>b \<in> set batches. \<forall>l \<in> set b. delivers w l \<Longrightarrow>
     concat (map (upserts w) batches) = upserts w (concat batches)"
  by (induction batches) (simp_all add: upserts_append)

lemma upserts_set:
  "\<forall>l \<in> set ls. delivers w l \<Longrightarrow>
     set (upserts w ls) = {e. \<exists>l \<in> set ls. entryOf w l = Some e}"
proof (induction ls)
  case Nil
  show ?case by simp
next
  case (Cons x ls)
  then have dx: "delivers w x" by simp
  from delivers_entry[OF dx] obtain e where e: "entryOf w x = Some e" by blast
  from Cons have ih: "set (upserts w ls) = {e. \<exists>l \<in> set ls. entryOf w l = Some e}" by simp
  have "set (upserts w (x # ls)) = insert e (set (upserts w ls))"
    by (simp add: upserts_Cons[OF dx] e del: upserts.simps(2))
  also have "\<dots> = {e'. \<exists>l \<in> set (x # ls). entryOf w l = Some e'}"
    unfolding ih using e by auto
  finally show ?case .
qed

lemma map_of_functional:
  assumes "(k, v) \<in> set us" and "\<forall>v'. (k, v') \<in> set us \<longrightarrow> v' = v"
  shows "map_of us k = Some v"
proof -
  from assms(1) have "k \<in> fst ` set us" by force
  then have "map_of us k \<noteq> None" by (simp only: map_of_eq_None_iff not_not)
  then obtain v' where v': "map_of us k = Some v'" by blast
  then have "(k, v') \<in> set us" by (rule map_of_SomeD)
  with assms(2) v' show ?thesis by simp
qed

lemma delivered_entry:
  assumes ok: "\<forall>l \<in> set ls. delivers w l"
      and inj: "inj_on transactionHash (set ls)"
      and l: "l \<in> set ls"
      and r: "resolve w l = Inr (it, q, tx)"
  shows "map_of (rev (upserts w ls)) (transactionHash l) = Some (makeReceipt it q tx)"
proof (rule map_of_functional)
  from ok l have dl: "delivers w l" by simp
  from delivers_entry[OF dl] r
  have e: "entryOf w l = Some (transactionHash l, makeReceipt it q tx)" by auto
  have "(transactionHash l, makeReceipt it q tx) \<in> set (upserts w ls)"
    unfolding upserts_set[OF ok] using l e by blast
  then show "(transactionHash l, makeReceipt it q tx) \<in> set (rev (upserts w ls))"
    by simp
  show "\<forall>v'. (transactionHash l, v') \<in> set (rev (upserts w ls)) \<longrightarrow> v' = makeReceipt it q tx"
  proof (intro allI impI)
    fix v'
    assume "(transactionHash l, v') \<in> set (rev (upserts w ls))"
    then have "(transactionHash l, v') \<in> set (upserts w ls)" by simp
    then obtain l' where l': "l' \<in> set ls"
        and in': "entryOf w l' = Some (transactionHash l, v')"
      unfolding upserts_set[OF ok] by blast
    from ok l' have "delivers w l'" by simp
    from delivers_entry[OF this] in' have "transactionHash l' = transactionHash l" by auto
    with inj l l' have "l' = l" by (auto dest: inj_onD)
    with in' e show "v' = makeReceipt it q tx" by simp
  qed
qed

lemma undelivered_key:
  assumes ok: "\<forall>l \<in> set ls. delivers w l"
      and k: "k \<notin> transactionHash ` set ls"
  shows "map_of (rev (upserts w ls)) k = None"
proof -
  have "k \<notin> fst ` set (rev (upserts w ls))"
  proof
    assume "k \<in> fst ` set (rev (upserts w ls))"
    then obtain v where "(k, v) \<in> set (upserts w ls)" by auto
    then obtain l' where l': "l' \<in> set ls" and in': "entryOf w l' = Some (k, v)"
      unfolding upserts_set[OF ok] by blast
    from ok l' have "delivers w l'" by simp
    from delivers_entry[OF this] in' have "k = transactionHash l'" by auto
    with k l' show False by simp
  qed
  then show ?thesis by (simp add: map_of_eq_None_iff)
qed

lemma deliver_flat:
  assumes "\<forall>l \<in> set (concat batches). delivers w l"
  shows "STOREFRONT_PURCHASES (deliver w batches s) =
           STOREFRONT_PURCHASES s ++ map_of (rev (upserts w (concat batches)))"
proof -
  from assms have "\<forall>b \<in> set batches. \<forall>l \<in> set b. delivers w l" by simp
  then have "concat (map (upserts w) batches) = upserts w (concat batches)"
    by (rule upserts_concat)
  then show ?thesis by (simp only: deliver_ledger)
qed

lemma deliver_hit:
  assumes ok: "\<forall>l \<in> set (concat batches). delivers w l"
      and inj: "inj_on transactionHash (set (concat batches))"
      and l: "l \<in> set (concat batches)"
      and r: "resolve w l = Inr (it, q, tx)"
  shows "STOREFRONT_PURCHASES (deliver w batches s) (transactionHash l) = Some (makeReceipt it q tx)"
  unfolding deliver_flat[OF ok] map_add_def delivered_entry[OF ok inj l r] by simp

lemma deliver_miss:
  assumes ok: "\<forall>l \<in> set (concat batches). delivers w l"
      and k: "k \<notin> transactionHash ` set (concat batches)"
  shows "STOREFRONT_PURCHASES (deliver w batches s) k = STOREFRONT_PURCHASES s k"
  unfolding deliver_flat[OF ok] map_add_def undelivered_key[OF ok k] by simp

lemma deliver_same_set:
  assumes ok: "\<forall>l \<in> set (concat batches). delivers w l"
      and inj: "inj_on transactionHash (set (concat batches))"
      and same: "set (concat batches') = set (concat batches)"
  shows "STOREFRONT_PURCHASES (deliver w batches' s) = STOREFRONT_PURCHASES (deliver w batches s)"
proof (rule ext)
  fix k
  from ok same have ok': "\<forall>l \<in> set (concat batches'). delivers w l" by (simp only:)
  from inj same have inj': "inj_on transactionHash (set (concat batches'))" by (simp only:)
  show "STOREFRONT_PURCHASES (deliver w batches' s) k = STOREFRONT_PURCHASES (deliver w batches s) k"
  proof (cases "k \<in> transactionHash ` set (concat batches)")
    case True
    then obtain l where l: "l \<in> set (concat batches)" and k: "k = transactionHash l" by blast
    from ok l have "delivers w l" by blast
    from delivers_entry[OF this] obtain it q tx where r: "resolve w l = Inr (it, q, tx)" by blast
    from l same have l': "l \<in> set (concat batches')" by (simp only:)
    show ?thesis
      unfolding k deliver_hit[OF ok inj l r] deliver_hit[OF ok' inj' l' r] ..
  next
    case False
    then have "k \<notin> transactionHash ` set (concat batches')" unfolding same .
    from deliver_miss[OF ok' this] deliver_miss[OF ok False] show ?thesis by simp
  qed
qed

text \<open>
  Claim C2. Take batches of logs, delivered one after the other by \<open>processPurchases\<close>
  (the windows of the backfill and the single logs of the live feed, repeated and ordered in
  any way), where every log decodes, its lookup returns the transaction with the hash of
  the log, and different logs have different transaction hashes. Then the table holds,
  under the hash of each log, the receipt assembled from that log, the one a single delivery
  of the log gives; every other key is as before; starting from the empty table there are
  exactly as many entries as there are different logs, one per hash; and any other sequence
  of batches with the same set of logs gives the same table.
\<close>

theorem ledger_idempotent:
  assumes ok: "\<forall>l \<in> set (concat batches). delivers w l"
      and inj: "inj_on transactionHash (set (concat batches))"
  shows "(\<forall>l \<in> set (concat batches). \<exists>it q tx.
            resolve w l = Inr (it, q, tx) \<and>
            STOREFRONT_PURCHASES (deliver w batches s) (transactionHash l)
              = Some (makeReceipt it q tx) \<and>
            STOREFRONT_PURCHASES (fst (processPurchases w [l] s)) (transactionHash l)
              = Some (makeReceipt it q tx)) \<and>
         (\<forall>k. k \<notin> transactionHash ` set (concat batches) \<longrightarrow>
            STOREFRONT_PURCHASES (deliver w batches s) k = STOREFRONT_PURCHASES s k) \<and>
         dom (STOREFRONT_PURCHASES (deliver w batches initial))
           = transactionHash ` set (concat batches) \<and>
         card (dom (STOREFRONT_PURCHASES (deliver w batches initial)))
           = card (set (concat batches)) \<and>
         (\<forall>batches'. set (concat batches') = set (concat batches) \<longrightarrow>
            STOREFRONT_PURCHASES (deliver w batches' s)
              = STOREFRONT_PURCHASES (deliver w batches s))"
proof (intro conjI)
  show "\<forall>l \<in> set (concat batches). \<exists>it q tx.
            resolve w l = Inr (it, q, tx) \<and>
            STOREFRONT_PURCHASES (deliver w batches s) (transactionHash l)
              = Some (makeReceipt it q tx) \<and>
            STOREFRONT_PURCHASES (fst (processPurchases w [l] s)) (transactionHash l)
              = Some (makeReceipt it q tx)"
  proof
    fix l
    assume l: "l \<in> set (concat batches)"
    with ok have "delivers w l" by blast
    from delivers_entry[OF this] obtain it q tx
      where r: "resolve w l = Inr (it, q, tx)" and h: "tx_hash tx = transactionHash l" by blast
    from single_delivery[OF r, of s] h
    have "STOREFRONT_PURCHASES (fst (processPurchases w [l] s)) (transactionHash l)
            = Some (makeReceipt it q tx)" by (simp only:)
    with r deliver_hit[OF ok inj l r, of s]
    show "\<exists>it q tx.
            resolve w l = Inr (it, q, tx) \<and>
            STOREFRONT_PURCHASES (deliver w batches s) (transactionHash l)
              = Some (makeReceipt it q tx) \<and>
            STOREFRONT_PURCHASES (fst (processPurchases w [l] s)) (transactionHash l)
              = Some (makeReceipt it q tx)" by blast
  qed
  show "\<forall>k. k \<notin> transactionHash ` set (concat batches) \<longrightarrow>
            STOREFRONT_PURCHASES (deliver w batches s) k = STOREFRONT_PURCHASES s k"
    using deliver_miss[OF ok] by blast
  show d: "dom (STOREFRONT_PURCHASES (deliver w batches initial))
           = transactionHash ` set (concat batches)"
  proof (rule set_eqI)
    fix k
    show "k \<in> dom (STOREFRONT_PURCHASES (deliver w batches initial))
            \<longleftrightarrow> k \<in> transactionHash ` set (concat batches)"
    proof (cases "k \<in> transactionHash ` set (concat batches)")
      case True
      then obtain l where l: "l \<in> set (concat batches)" and k: "k = transactionHash l" by blast
      from ok l have "delivers w l" by blast
      from delivers_entry[OF this] obtain it q tx where r: "resolve w l = Inr (it, q, tx)" by blast
      from deliver_hit[OF ok inj l r, of initial] True k show ?thesis by (simp add: domIff)
    next
      case False
      from deliver_miss[OF ok False, of initial] False show ?thesis
        by (simp add: domIff initial_def)
    qed
  qed
  show "card (dom (STOREFRONT_PURCHASES (deliver w batches initial)))
           = card (set (concat batches))"
    unfolding d using inj by (rule card_image)
  show "\<forall>batches'. set (concat batches') = set (concat batches) \<longrightarrow>
            STOREFRONT_PURCHASES (deliver w batches' s)
              = STOREFRONT_PURCHASES (deliver w batches s)"
    using deliver_same_set[OF ok inj] by blast
qed

text \<open>Two purchases, delivered by a window of the backfill and again, in the other order, by
  the live feed: two entries, the same table as one delivery of each.\<close>

theorem ledger_idempotent_witness:
  "card (dom (STOREFRONT_PURCHASES
       (deliver demoEnv [[sneakersLog, bigLog], [sneakersLog], [bigLog, sneakersLog]] initial))) = 2 \<and>
   STOREFRONT_PURCHASES (deliver demoEnv [[bigLog], [sneakersLog]] initial) =
   STOREFRONT_PURCHASES
       (deliver demoEnv [[sneakersLog, bigLog], [sneakersLog], [bigLog, sneakersLog]] initial)"
proof -
  let ?B = "[[sneakersLog, bigLog], [sneakersLog], [bigLog, sneakersLog]]"
  have ne: "sneakersLog \<noteq> bigLog" by (simp add: sneakersLog_def bigLog_def)
  have ok: "\<forall>l \<in> set (concat ?B). delivers demoEnv l"
    by (simp add: delivers_def resolve_def demoEnv_def sneakersLog_def bigLog_def)
  have S: "set (concat ?B) = {sneakersLog, bigLog}" by auto
  have h: "transactionHash sneakersLog \<noteq> transactionHash bigLog"
    by (simp add: sneakersLog_def bigLog_def)
  have inj: "inj_on transactionHash (set (concat ?B))"
    unfolding S using h by (auto simp: inj_on_def)
  have c: "card (set (concat ?B)) = 2" unfolding S using ne by simp
  have same: "set (concat [[bigLog], [sneakersLog]]) = set (concat ?B)" by auto
  note T = ledger_idempotent[OF ok inj, of initial]
  from T have "card (dom (STOREFRONT_PURCHASES (deliver demoEnv ?B initial)))
                 = card (set (concat ?B))" by blast
  moreover from T same
  have "STOREFRONT_PURCHASES (deliver demoEnv [[bigLog], [sneakersLog]] initial) =
        STOREFRONT_PURCHASES (deliver demoEnv ?B initial)" by blast
  ultimately show ?thesis using c by simp
qed

subsection \<open>C3: a failed transaction lookup\<close>

text \<open>
  Claim C3, as the code has it. When the lookup of a log's transaction fails (the promise
  rejects, or it resolves to \<open>null\<close> and reading \<open>tx.from\<close> throws), the error leaves
  \<open>processPurchases\<close>: nothing is stored or written for that log, the logs after it in
  the batch are not processed, and the state is the one reached by the logs before it. In the
  backfill the error leaves \<open>indexPastPurchases\<close> as well: no later window is requested.
  In the live callback the state is unchanged and the error is an unhandled rejection.
\<close>

theorem lookup_failure_aborts:
  assumes dec: "decodeLog w (ITEM_PURCHASED_ABI_INPUT w) (data l) (topics l) = Inr (it, q)"
      and lost: "getTransaction w (transactionHash l) = Inl e \<or>
                 getTransaction w (transactionHash l) = Inr None \<and> e = TypeError"
  shows "processLog w l s = Inl e \<and>
         processPurchases w (l # rest) s = (s, Some e) \<and>
         (processPurchases w pre s = (s1, None) \<longrightarrow>
            processPurchases w (pre @ l # rest) s = (s1, Some e)) \<and>
         (i < H \<and> getPastLogs w (requestAt w i) = Inr (pre @ l # rest) \<and> failure w pre = None \<longrightarrow>
            indexPastPurchases_from w i H s =
              (fst (processPurchases w pre
                      (s\<lparr>pastLogsRequests := pastLogsRequests s @ [requestAt w i]\<rparr>)),
               Some e)) \<and>
         subscription_callback w None l s = (s, Unhandled e)"
proof -
  note r = lookup_fails[OF dec lost]
  show ?thesis
    using processLog_fails[OF r] processPurchases_single_fail[OF r]
      processPurchases_abort[OF _ r] scan_abort[OF _ _ _ r] callback_fail[OF r]
    by blast
qed

text \<open>A window holding a log whose transaction is unknown, then the log of a known purchase:
  the lookup's error ends the scan after this one request, and the purchase is not in the
  table.\<close>

theorem lookup_failure_aborts_witness:
  "indexPastPurchases_from demoEnv 0 1200000 initial =
     (initial\<lparr>pastLogsRequests := [requestAt demoEnv 0]\<rparr>, Some NotFound) \<and>
   processPurchases demoEnv [lostLog, sneakersLog] initial = (initial, Some NotFound)"
proof -
  have dec: "decodeLog demoEnv (ITEM_PURCHASED_ABI_INPUT demoEnv) (data lostLog) (topics lostLog)
               = Inr (''sneakers'', ''2'')"
    by (simp add: demoEnv_def lostLog_def)
  have lost: "getTransaction demoEnv (transactionHash lostLog) = Inl NotFound \<or>
              getTransaction demoEnv (transactionHash lostLog) = Inr None \<and> NotFound = TypeError"
    by (simp add: demoEnv_def lostLog_def)
  have g: "getPastLogs demoEnv (requestAt demoEnv 0) = Inr ([] @ lostLog # [sneakersLog])"
    by (simp add: demoEnv_def requestAt_def Filter.extend_def PastLogsOptions.fields_def)
  have pre: "(0::int) < 1200000" "failure demoEnv [] = None" by simp_all
  note T = lookup_failure_aborts[OF dec lost, of initial "[sneakersLog]" "[]" initial 0 1200000]
  from T g pre have "indexPastPurchases_from demoEnv 0 1200000 initial =
      (fst (processPurchases demoEnv []
              (initial\<lparr>pastLogsRequests := pastLogsRequests initial @ [requestAt demoEnv 0]\<rparr>)),
       Some NotFound)" by blast
  moreover from T have "processPurchases demoEnv (lostLog # [sneakersLog]) initial
                          = (initial, Some NotFound)" by blast
  ultimately show ?thesis by (simp add: initial_def)
qed

text \<open>
  Claim C3 as stated has the scan go on with the other logs. Here the second log of the window
  is a purchase that a delivery of its own stores, and the scan leaves the table without it.
\<close>

theorem lookup_failure_counterexample:
  "snd (indexPastPurchases demoEnv 1200000 initial) = Some NotFound \<and>
   getPastLogs demoEnv (backfillWindow demoEnv 0) = Inr [lostLog, sneakersLog] \<and>
   STOREFRONT_PURCHASES (fst (indexPastPurchases demoEnv 1200000 initial)) ''0xabc'' = None \<and>
   length (pastLogsRequests (fst (indexPastPurchases demoEnv 1200000 initial))) = 1 \<and>
   STOREFRONT_PURCHASES (fst (processPurchases demoEnv [sneakersLog] initial)) ''0xabc''
     = Some (makeReceipt ''sneakers'' ''2''
               \<lparr>tx_hash = ''0xabc'', tx_from = ''0xA'', tx_value = ''300''\<rparr>)"
proof -
  have g: "getPastLogs demoEnv (backfillWindow demoEnv 0) = Inr [lostLog, sneakersLog]"
    by (simp add: demoEnv_def window_bounds)
  have a: "snd (indexPastPurchases demoEnv 1200000 initial) = Some NotFound"
    by (simp add: demo_scan)
  have b: "STOREFRONT_PURCHASES (fst (indexPastPurchases demoEnv 1200000 initial)) ''0xabc'' = None"
    unfolding demo_scan by (simp add: initial_def)
  have c: "length (pastLogsRequests (fst (indexPastPurchases demoEnv 1200000 initial))) = 1"
    unfolding demo_scan by simp
  have d: "STOREFRONT_PURCHASES (fst (processPurchases demoEnv [sneakersLog] initial)) ''0xabc''
     = Some (makeReceipt ''sneakers'' ''2''
               \<lparr>tx_hash = ''0xabc'', tx_from = ''0xA'', tx_value = ''300''\<rparr>)"
    using single_delivery[OF demo_sneakers, of initial] by (simp del: processPurchases.simps)
  from a g b c d show ?thesis by blast
qed

subsection \<open>C4: an error of the live subscription\<close>

lemma scan_subscriptions:
  "subscriptions (fst (indexPastPurchases_from w i H s)) = subscriptions s"
proof (induction w i H s rule: indexPastPurchases_from.induct)
  case (1 w i H s)
  let ?s1 = "s\<lparr>pastLogsRequests := pastLogsRequests s @ [requestAt w i]\<rparr>"
  show ?case
  proof (cases "i < H")
    case False
    then show ?thesis by (simp add: scan_done)
  next
    case True
    show ?thesis
    proof (cases "getPastLogs w (requestAt w i)")
      case (Inl e)
      with True show ?thesis by (simp add: scan_step)
    next
      case (Inr ls)
      obtain s2 r2 where p: "processPurchases w ls ?s1 = (s2, r2)" by force
      from processPurchases_subscriptions[of w ls ?s1] p
      have s2: "subscriptions s2 = subscriptions s" by simp
      show ?thesis
      proof (cases r2)
        case (Some e)
        with True Inr p s2 show ?thesis by (simp add: scan_step)
      next
        case None
        from "1.IH"[OF True refl refl refl refl, of ls s2 None] Inr p None
        have "subscriptions (fst (indexPastPurchases_from w (i + 500000) H s2)) = subscriptions s2"
          by (simp add: requestAt_def)
        with True Inr p None s2 show ?thesis by (simp add: scan_step)
      qed
    qed
  qed
qed

lemma callback_subscriptions:
  "subscriptions (fst (subscription_callback w err l s)) = subscriptions s"
proof (cases err)
  case None
  obtain s' r where p: "processPurchases w [l] s = (s', r)" by force
  from processPurchases_subscriptions[of w "[l]" s] p have "subscriptions s' = subscriptions s"
    by simp
  with None p show ?thesis
    by (cases r) (simp_all add: subscription_callback_def del: processPurchases.simps)
next
  case (Some e)
  then show ?thesis by (simp add: subscription_callback_def)
qed

lemma start_subscriptions:
  "subscriptions (fst (start w s)) =
     (case getBlockNumber w of
        Inl e \<Rightarrow> subscriptions s
      | Inr n \<Rightarrow> subscriptions s @ [PURCHASE_FILTER w])"
  by (cases "getBlockNumber w")
     (simp_all add: start_def indexPastPurchases_def scan_subscriptions)

text \<open>
  Claim C4, as the code has it. When the callback of the subscription is called with an
  error, it throws that error and the state is unchanged. No call of the callback issues a
  subscription, whatever its arguments: the only \<open>subscribe\<close> is the one \<open>start\<close>
  makes, with the purchase filter, once the block number is known.
\<close>

theorem subscription_error_surfaced:
  "subscription_callback w (Some e) newPurchase s = (s, Threw e) \<and>
   subscriptions (fst (subscription_callback w err newPurchase s)) = subscriptions s \<and>
   subscriptions (fst (start w s)) =
     (case getBlockNumber w of
        Inl e' \<Rightarrow> subscriptions s
      | Inr n \<Rightarrow> subscriptions s @ [PURCHASE_FILTER w])"
proof (intro conjI)
  show "subscription_callback w (Some e) newPurchase s = (s, Threw e)"
    by (simp add: subscription_callback_def)
  show "subscriptions (fst (subscription_callback w err newPurchase s)) = subscriptions s"
    by (rule callback_subscriptions)
  show "subscriptions (fst (start w s)) =
     (case getBlockNumber w of
        Inl e' \<Rightarrow> subscriptions s
      | Inr n \<Rightarrow> subscriptions s @ [PURCHASE_FILTER w])"
    by (rule start_subscriptions)
qed

text \<open>
  Claim C4 as stated has a second subscription with the same filter after a transport
  error. After \<open>start\<close> and a callback with a transport error the trace of subscriptions
  still holds the first one only.
\<close>

theorem subscription_error_counterexample:
  "subscriptions (fst (start quietEnv initial)) = [PURCHASE_FILTER quietEnv] \<and>
   snd (subscription_callback quietEnv (Some TransportError) sneakersLog
          (fst (start quietEnv initial))) = Threw TransportError \<and>
   subscriptions (fst (subscription_callback quietEnv (Some TransportError) sneakersLog
                         (fst (start quietEnv initial))))
     = [PURCHASE_FILTER quietEnv] \<and>
   [PURCHASE_FILTER quietEnv] \<noteq> [PURCHASE_FILTER quietEnv, PURCHASE_FILTER quietEnv]"
proof -
  have g: "getBlockNumber quietEnv = Inr 1200000" by (simp add: quietEnv_def demoEnv_def)
  have a: "subscriptions (fst (start quietEnv initial)) = [PURCHASE_FILTER quietEnv]"
    by (simp add: start_subscriptions g initial_def)
  have b: "snd (subscription_callback quietEnv (Some TransportError) sneakersLog
          (fst (start quietEnv initial))) = Threw TransportError"
    by (simp add: subscription_callback_def)
  have c: "subscriptions (fst (subscription_callback quietEnv (Some TransportError) sneakersLog
                         (fst (start quietEnv initial))))
     = [PURCHASE_FILTER quietEnv]"
    by (simp add: callback_subscriptions a)
  from a b c show ?thesis by simp
qed

subsection \<open>C5: a log that does not decode\<close>

text \<open>
  Claim C5, as the code has it. Whenever the decoder rejects a log, as it does when the data
  do not parse against the inputs, the error leaves \<open>processPurchases\<close> at that log: the
  state, and so the table, is the one reached before the log, nothing is stored or written
  for it, and the log is not skipped, since nothing after it in the batch is processed. The
  error ends a scan of the backfill, and is the rejection of the delivery in the live
  callback. What is rejected is the decoder's matter alone: the code makes no check of its
  own, neither of the data nor of the first topic.
\<close>

theorem decode_failure_propagates:
  assumes dec: "decodeLog w (ITEM_PURCHASED_ABI_INPUT w) (data l) (topics l) = Inl e"
  shows "processLog w l s = Inl e \<and>
         processPurchases w (l # rest) s = (s, Some e) \<and>
         (processPurchases w pre s = (s1, None) \<longrightarrow>
            processPurchases w (pre @ l # rest) s = (s1, Some e)) \<and>
         (i < H \<and> getPastLogs w (requestAt w i) = Inr (pre @ l # rest) \<and> failure w pre = None \<longrightarrow>
            indexPastPurchases_from w i H s =
              (fst (processPurchases w pre
                      (s\<lparr>pastLogsRequests := pastLogsRequests s @ [requestAt w i]\<rparr>)),
               Some e)) \<and>
         subscription_callback w None l s = (s, Unhandled e)"
proof -
  note r = decode_fails[OF dec]
  show ?thesis
    using processLog_fails[OF r] processPurchases_single_fail[OF r]
      processPurchases_abort[OF _ r] scan_abort[OF _ _ _ r] callback_fail[OF r]
    by blast
qed

text \<open>A log the decoder rejects, delivered after a purchase: the purchase is stored, the
  rejected log adds nothing, though the transaction it names is known.\<close>

theorem decode_failure_propagates_witness:
  "processPurchases demoEnv [junkLog] initial = (initial, Some DecodeError) \<and>
   processPurchases demoEnv ([sneakersLog] @ junkLog # [bigLog]) initial =
     (fst (processPurchases demoEnv [sneakersLog] initial), Some DecodeError)"
proof -
  have dec: "decodeLog demoEnv (ITEM_PURCHASED_ABI_INPUT demoEnv) (data junkLog) (topics junkLog)
               = Inl DecodeError"
    by (simp add: demoEnv_def junkLog_def)
  have "failure demoEnv [sneakersLog] = None" by (simp add: demo_sneakers)
  then have pre: "processPurchases demoEnv [sneakersLog] initial =
                    (fst (processPurchases demoEnv [sneakersLog] initial), None)"
    using processPurchases_failure[of demoEnv "[sneakersLog]" initial] by (metis prod.collapse)
  from decode_failure_propagates[OF dec, of initial "[]"]
  have "processPurchases demoEnv [junkLog] initial = (initial, Some DecodeError)" by blast
  moreover from decode_failure_propagates[OF dec, of initial "[bigLog]" "[sneakersLog]"] pre
  have "processPurchases demoEnv ([sneakersLog] @ junkLog # [bigLog]) initial =
          (fst (processPurchases demoEnv [sneakersLog] initial), Some DecodeError)" by blast
  ultimately show ?thesis by blast
qed

text \<open>
  Claim C5 as stated has every log fail whose first topic is not the signature of
  \<open>ItemPurchased\<close>. The call of the decoder does not name the event: it passes the inputs,
  the data and the topics, and nothing in \<open>processPurchases\<close> compares a topic with the
  signature. On the demo chain the decoder reads the data only, as a decoder does for an
  event none of whose inputs is indexed: a log with another first topic whose data parse is
  stored as a purchase.
\<close>

theorem decode_failure_counterexample:
  "topics strayLog = [''0xother''] \<and>
   sha3 demoEnv ''ItemPurchased(string,uint256)'' = ''0xsig'' \<and>
   processPurchases demoEnv [strayLog] initial =
     (initial\<lparr>STOREFRONT_PURCHASES := [''0xabc'' \<mapsto>
          \<lparr>receipt_from = ''0xA'', item = ''sneakers'', quantity = Num 2, total = Num 300,
           transactionId = ''0xabc''\<rparr>],
        console := [''[0xabc] 2 of '' @ [CHR 0x22] @ ''sneakers'' @ [CHR 0x22] @
                    '' were purchased by 0xA for 300 wei'']\<rparr>, None)"
proof -
  have r: "resolve demoEnv strayLog =
     Inr (''sneakers'', ''2'', \<lparr>tx_hash = ''0xabc'', tx_from = ''0xA'', tx_value = ''300''\<rparr>)"
    by (simp add: resolve_def demoEnv_def strayLog_def)
  have a: "topics strayLog = [''0xother'']" by (simp add: strayLog_def)
  have b: "sha3 demoEnv ''ItemPurchased(string,uint256)'' = ''0xsig''" by (simp add: demoEnv_def)
  have c: "processPurchases demoEnv [strayLog] initial =
     (initial\<lparr>STOREFRONT_PURCHASES := [''0xabc'' \<mapsto>
          \<lparr>receipt_from = ''0xA'', item = ''sneakers'', quantity = Num 2, total = Num 300,
           transactionId = ''0xabc''\<rparr>],
        console := [''[0xabc] 2 of '' @ [CHR 0x22] @ ''sneakers'' @ [CHR 0x22] @
                    '' were purchased by 0xA for 300 wei'']\<rparr>, None)"
    unfolding processPurchases_single_ok[OF r]
    by (simp add: makeReceipt_def purchaseLine_def demo_values initial_def)
  from a b c show ?thesis by blast
qed

subsection \<open>C6: no partial entry\<close>

text \<open>
  Claim C6. Processing one log either fails, and then the state is untouched, or stores under
  \<open>tx.hash\<close> a receipt with all five fields set from the decoded log and the transaction.
  After a batch every key of the table holds what it held before or such a complete
  receipt of a log of the batch; no entry that was present is lost; and a failure at a log
  leaves exactly the state the logs before it produced.
\<close>

theorem no_partial_entry:
  "((\<exists>e. resolve w l = Inl e \<and> processPurchases w [l] s = (s, Some e)) \<or>
    (\<exists>it q tx. resolve w l = Inr (it, q, tx) \<and>
       processPurchases w [l] s =
         (s\<lparr>STOREFRONT_PURCHASES := (STOREFRONT_PURCHASES s)(tx_hash tx \<mapsto>
               \<lparr>receipt_from = tx_from tx, item = it, quantity = parseInt q,
                total = parseInt (tx_value tx), transactionId = tx_hash tx\<rparr>),
            console := console s @ [purchaseLine it q tx]\<rparr>, None))) \<and>
   (\<forall>k. STOREFRONT_PURCHASES (fst (processPurchases w ls s)) k = STOREFRONT_PURCHASES s k \<or>
        (\<exists>l' \<in> set ls. \<exists>it q tx. resolve w l' = Inr (it, q, tx) \<and> k = tx_hash tx \<and>
           STOREFRONT_PURCHASES (fst (processPurchases w ls s)) k =
             Some \<lparr>receipt_from = tx_from tx, item = it, quantity = parseInt q,
                   total = parseInt (tx_value tx), transactionId = tx_hash tx\<rparr>)) \<and>
   dom (STOREFRONT_PURCHASES s) \<subseteq> dom (STOREFRONT_PURCHASES (fst (processPurchases w ls s))) \<and>
   (processPurchases w pre s = (s1, None) \<and> resolve w l = Inl e' \<longrightarrow>
      processPurchases w (pre @ l # rest) s = (s1, Some e'))"
proof (intro conjI)
  show "(\<exists>e. resolve w l = Inl e \<and> processPurchases w [l] s = (s, Some e)) \<or>
    (\<exists>it q tx. resolve w l = Inr (it, q, tx) \<and>
       processPurchases w [l] s =
         (s\<lparr>STOREFRONT_PURCHASES := (STOREFRONT_PURCHASES s)(tx_hash tx \<mapsto>
               \<lparr>receipt_from = tx_from tx, item = it, quantity = parseInt q,
                total = parseInt (tx_value tx), transactionId = tx_hash tx\<rparr>),
            console := console s @ [purchaseLine it q tx]\<rparr>, None))"
  proof (cases "resolve w l")
    case (Inl e)
    from processPurchases_single_fail[OF this] Inl show ?thesis by blast
  next
    case (Inr t)
    obtain it q tx where t: "t = (it, q, tx)" by (cases t) auto
    from Inr t have r: "resolve w l = Inr (it, q, tx)" by simp
    from processPurchases_single_ok[OF r, of s] r show ?thesis
      unfolding makeReceipt_def by blast
  qed
  show "\<forall>k. STOREFRONT_PURCHASES (fst (processPurchases w ls s)) k = STOREFRONT_PURCHASES s k \<or>
        (\<exists>l' \<in> set ls. \<exists>it q tx. resolve w l' = Inr (it, q, tx) \<and> k = tx_hash tx \<and>
           STOREFRONT_PURCHASES (fst (processPurchases w ls s)) k =
             Some \<lparr>receipt_from = tx_from tx, item = it, quantity = parseInt q,
                   total = parseInt (tx_value tx), transactionId = tx_hash tx\<rparr>)"
    using ledger_entry_cases[of w ls s] unfolding makeReceipt_def by blast
  show "dom (STOREFRONT_PURCHASES s) \<subseteq> dom (STOREFRONT_PURCHASES (fst (processPurchases w ls s)))"
    by (rule ledger_grows)
  show "processPurchases w pre s = (s1, None) \<and> resolve w l = Inl e' \<longrightarrow>
      processPurchases w (pre @ l # rest) s = (s1, Some e')"
    using processPurchases_abort by blast
qed

text \<open>A purchase, then a log whose transaction is unknown, then another purchase: the state is
  the one after the first purchase, whole, and the failed log alone leaves the state as it
  was.\<close>

theorem no_partial_entry_witness:
  "processPurchases demoEnv [lostLog] initial = (initial, Some NotFound) \<and>
   processPurchases demoEnv ([sneakersLog] @ lostLog # [bigLog]) initial =
     (fst (processPurchases demoEnv [sneakersLog] initial), Some NotFound)"
proof -
  have "failure demoEnv [sneakersLog] = None" by (simp add: demo_sneakers)
  then have pre: "processPurchases demoEnv [sneakersLog] initial =
                    (fst (processPurchases demoEnv [sneakersLog] initial), None)"
    using processPurchases_failure[of demoEnv "[sneakersLog]" initial] by (metis prod.collapse)
  note T = no_partial_entry[of demoEnv lostLog initial "[]" "[sneakersLog]"
             "fst (processPurchases demoEnv [sneakersLog] initial)" NotFound "[bigLog]"]
  from T have "(\<exists>e. resolve demoEnv lostLog = Inl e \<and>
                    processPurchases demoEnv [lostLog] initial = (initial, Some e)) \<or>
               (\<exists>it q tx. resolve demoEnv lostLog = Inr (it, q, tx) \<and>
       processPurchases demoEnv [lostLog] initial =
         (initial\<lparr>STOREFRONT_PURCHASES := (STOREFRONT_PURCHASES initial)(tx_hash tx \<mapsto>
               \<lparr>receipt_from = tx_from tx, item = it, quantity = parseInt q,
                total = parseInt (tx_value tx), transactionId = tx_hash tx\<rparr>),
            console := console initial @ [purchaseLine it q tx]\<rparr>, None))"
    by (rule conjunct1)
  then have a: "processPurchases demoEnv [lostLog] initial = (initial, Some NotFound)"
    unfolding demo_lost by auto
  from T pre demo_lost
  have b: "processPurchases demoEnv ([sneakersLog] @ lostLog # [bigLog]) initial =
     (fst (processPurchases demoEnv [sneakersLog] initial), Some NotFound)"
    by blast
  from a b show ?thesis by blast
qed

subsection \<open>C7: the total of a receipt\<close>

lemma radixDigit_10: "radixDigit 10 c = (48 \<le> (of_char c :: nat) \<and> (of_char c :: nat) \<le> 57)"
  by (auto simp: radixDigit_def digitValue_def Let_def)

lemma digit_not_special:
  assumes "radixDigit 10 c"
  shows "\<not> isWhiteSpace c" "c \<noteq> CHR ''-''" "c \<noteq> CHR ''+''" "c \<noteq> CHR ''x''" "c \<noteq> CHR ''X''"
  using assms by (auto simp: radixDigit_10 isWhiteSpace_def)

lemma parseInt_decimal:
  assumes "decimalDigits v"
  shows "parseInt v = toNumber False (mathInt 10 v)"
proof -
  from assms obtain c cs where v: "v = c # cs" and c: "radixDigit 10 c"
    and cs: "list_all (radixDigit 10) cs"
    by (cases v) (auto simp: decimalDigits_def)
  have ws: "dropWhile isWhiteSpace v = v" using v c digit_not_special(1) by simp
  have sign: "hd v \<noteq> CHR ''-''" "hd v \<noteq> CHR ''+''" using v c digit_not_special by auto
  have nohex: "take 2 v \<noteq> ''0x''" "take 2 v \<noteq> ''0X''"
  proof -
    show "take 2 v \<noteq> ''0x''"
    proof (cases cs)
      case Nil
      with v show ?thesis by simp
    next
      case (Cons d ds)
      with cs have "radixDigit 10 d" by simp
      then have "d \<noteq> CHR ''x''" by (rule digit_not_special)
      with v Cons show ?thesis by simp
    qed
    show "take 2 v \<noteq> ''0X''"
    proof (cases cs)
      case Nil
      with v show ?thesis by simp
    next
      case (Cons d ds)
      with cs have "radixDigit 10 d" by simp
      then have "d \<noteq> CHR ''X''" by (rule digit_not_special)
      with v Cons show ?thesis by simp
    qed
  qed
  have all: "takeWhile (radixDigit 10) v = v"
    using v c cs by (simp add: takeWhile_eq_all_conv list_all_iff)
  have ne: "v \<noteq> []" using v by simp
  show ?thesis
    unfolding parseInt_def Let_def ws using sign nohex ne by (simp add: all)
qed

lemma roundToDouble_exact: "n \<le> 2 ^ 53 \<Longrightarrow> roundToDouble n = n"
proof (cases "n < 2 ^ 53")
  case True
  then show ?thesis by (simp add: roundToDouble_def)
next
  case False
  assume "n \<le> 2 ^ 53"
  with False have n: "n = 9007199254740992" by simp
  show ?thesis unfolding n by (simp add: roundToDouble_def Let_def)
qed

lemma toNumber_exact: "n \<le> 2 ^ 53 \<Longrightarrow> toNumber False n = Num (int n)"
proof -
  assume n: "n \<le> 2 ^ 53"
  have "(2::nat) ^ 53 < 2 ^ 1024" by (rule power_strict_increasing) simp_all
  with n have "\<not> 2 ^ 1024 \<le> n" by linarith
  with n show ?thesis by (simp add: toNumber_def roundToDouble_exact Let_def)
qed

lemma bitlen_bounds: "0 < n \<Longrightarrow> 2 ^ (bitlen n - 1) \<le> n \<and> n < 2 ^ bitlen n"
proof (induction n rule: bitlen.induct)
  case (1 n)
  from "1.prems" have n0: "n \<noteq> 0" by simp
  have b: "bitlen n = Suc (bitlen (n div 2))" using n0 by (subst bitlen.simps) simp
  show ?case
  proof (cases "n div 2 = 0")
    case True
    with "1.prems" have n1: "n = 1" by (simp add: div_eq_0_iff)
    have "bitlen (n div 2) = 0" unfolding True by (subst bitlen.simps) simp
    with b n1 show ?thesis by (simp del: bitlen.simps)
  next
    case False
    then have pos: "0 < n div 2" by simp
    from "1.IH"[OF n0 pos]
    have lo: "2 ^ (bitlen (n div 2) - 1) \<le> n div 2" and hi: "n div 2 < 2 ^ bitlen (n div 2)"
      by blast+
    have "bitlen (n div 2) = Suc (bitlen (n div 2 div 2))"
      using False by (subst bitlen.simps) simp
    then obtain k where k: "bitlen (n div 2) = Suc k" by blast
    from lo have "2 ^ k \<le> n div 2" unfolding k by simp
    then have "2 * 2 ^ k \<le> 2 * (n div 2)" by simp
    also have "\<dots> \<le> n" by simp
    finally have l: "2 ^ (bitlen n - 1) \<le> n" unfolding b k by simp
    from hi have "n div 2 + 1 \<le> 2 ^ Suc k" unfolding k by simp
    then have "2 * (n div 2) + 2 \<le> 2 * 2 ^ Suc k" by simp
    moreover have "n \<le> 2 * (n div 2) + 1" by presburger
    ultimately have "n < 2 ^ bitlen n" unfolding b k by simp
    with l show ?thesis by blast
  qed
qed

lemma bitlen_large:
  assumes "2 ^ 53 \<le> n"
  shows "54 \<le> bitlen n"
proof (rule ccontr)
  assume "\<not> 54 \<le> bitlen n"
  then have "bitlen n \<le> 53" by simp
  then have "(2::nat) ^ bitlen n \<le> 2 ^ 53" by (rule power_increasing) simp
  moreover from assms have "0 < n" by (simp add: order.strict_trans2[of 0 "2 ^ 53"])
  then have "n < 2 ^ bitlen n" using bitlen_bounds by blast
  ultimately show False using assms by linarith
qed

text \<open>Above \<open>2 ^ 53\<close> the result of \<open>roundToDouble\<close> lies on the grid of the doubles of
  that size, with spacing \<open>2 ^ e\<close>, has a significand of 53 bits, is at most half a step away
  from the argument, and at exactly half a step has an even significand.\<close>

lemma roundToDouble_nearest:
  assumes big: "2 ^ 53 \<le> n"
  defines "e \<equiv> bitlen n - 53"
  shows "2 ^ e dvd roundToDouble n"
    and "2 ^ 52 \<le> roundToDouble n div 2 ^ e \<and> roundToDouble n div 2 ^ e \<le> 2 ^ 53"
    and "2 * \<bar>int (roundToDouble n) - int n\<bar> \<le> 2 ^ e"
    and "2 * \<bar>int (roundToDouble n) - int n\<bar> = 2 ^ e \<longrightarrow> even (roundToDouble n div 2 ^ e)"
proof -
  define q where "q = n div 2 ^ e"
  define r where "r = n mod 2 ^ e"
  define h :: nat where "h = 2 ^ (e - 1)"
  from bitlen_large[OF big] have e1: "1 \<le> e" and be: "bitlen n = e + 53"
    by (simp_all add: e_def del: bitlen.simps)
  from e1 have step: "(2::nat) ^ e = 2 * h" unfolding h_def by (cases e) simp_all
  from step have "int (2 ^ e) = int (2 * h)" by (simp only:)
  then have stepi: "(2::int) ^ e = 2 * int h" by simp
  have n: "n = q * 2 ^ e + r" unfolding q_def r_def by (rule div_mult_mod_eq[symmetric])
  have r: "r < 2 ^ e" by (simp add: r_def)
  from big have npos: "0 < n" by (simp add: order.strict_trans2[of 0 "2 ^ 53"])
  from bitlen_bounds[OF npos] have bl: "2 ^ (bitlen n - 1) \<le> n" and bh: "n < 2 ^ bitlen n"
    by blast+
  have e52: "e + 53 - 1 = e + 52" by simp
  from bl have lo: "2 ^ (e + 52) \<le> n" unfolding be e52 .
  from bh have hi: "n < 2 ^ (e + 53)" unfolding be .
  have qlo: "2 ^ 52 \<le> q"
  proof -
    from lo have "2 ^ 52 * 2 ^ e \<le> n" by (simp add: power_add mult.commute)
    then have "(2 ^ 52 * 2 ^ e) div 2 ^ e \<le> n div 2 ^ e" by (rule div_le_mono)
    then show ?thesis by (simp add: q_def)
  qed
  have qhi: "q < 2 ^ 53"
  proof -
    from hi have "n < 2 ^ 53 * 2 ^ e" by (simp add: power_add mult.commute)
    then show ?thesis unfolding q_def by (simp add: less_mult_imp_div_less)
  qed
  have R: "roundToDouble n = (if h < r \<or> (r = h \<and> odd q) then (q + 1) * 2 ^ e else q * 2 ^ e)"
    using big by (simp add: roundToDouble_def Let_def q_def r_def h_def e_def del: bitlen.simps)
  show "2 ^ e dvd roundToDouble n" by (simp add: R)
  have d: "roundToDouble n div 2 ^ e = (if h < r \<or> (r = h \<and> odd q) then q + 1 else q)"
    by (simp add: R)
  show "2 ^ 52 \<le> roundToDouble n div 2 ^ e \<and> roundToDouble n div 2 ^ e \<le> 2 ^ 53"
    using qlo qhi by (simp add: d)
  show "2 * \<bar>int (roundToDouble n) - int n\<bar> \<le> 2 ^ e"
  proof (cases "h < r \<or> (r = h \<and> odd q)")
    case True
    then have "int (roundToDouble n) - int n = int (2 * h) - int r"
      using R n step by (simp add: algebra_simps)
    moreover from True have "h \<le> r" by auto
    moreover from r step have "r < 2 * h" by simp
    ultimately show ?thesis unfolding stepi by simp
  next
    case False
    then have "int (roundToDouble n) - int n = - int r"
      using R n by (simp add: algebra_simps)
    moreover from False have "r \<le> h" by auto
    ultimately show ?thesis unfolding stepi by simp
  qed
  show "2 * \<bar>int (roundToDouble n) - int n\<bar> = 2 ^ e \<longrightarrow> even (roundToDouble n div 2 ^ e)"
  proof (cases "h < r \<or> (r = h \<and> odd q)")
    case True
    then have eq: "int (roundToDouble n) - int n = int (2 * h) - int r"
      using R n step by (simp add: algebra_simps)
    from True have hr: "h \<le> r" by auto
    from r step have r2: "r < 2 * h" by simp
    show ?thesis
    proof
      assume "2 * \<bar>int (roundToDouble n) - int n\<bar> = 2 ^ e"
      then have "2 * (int (2 * h) - int r) = int (2 * h)"
        using eq hr r2 unfolding stepi by simp
      then have "r = h" by simp
      with True have "odd q" by simp
      with True show "even (roundToDouble n div 2 ^ e)" by (simp add: d)
    qed
  next
    case False
    then have eq: "int (roundToDouble n) - int n = - int r"
      using R n by (simp add: algebra_simps)
    show ?thesis
    proof
      assume "2 * \<bar>int (roundToDouble n) - int n\<bar> = 2 ^ e"
      then have "2 * int r = int (2 * h)"
        using eq unfolding stepi by simp
      then have "r = h" by simp
      with False have "even q" by simp
      with False show "even (roundToDouble n div 2 ^ e)" by (simp add: d)
    qed
  qed
qed

lemma parseInt_rounded:
  assumes "decimalDigits v" and "roundToDouble (mathInt 10 v) < 2 ^ 1024"
  shows "parseInt v = Num (int (roundToDouble (mathInt 10 v)))"
  using assms by (simp add: parseInt_decimal toNumber_def Let_def)

text \<open>
  What the code stores for a log that is processed: under \<open>tx.hash\<close>, the sender and the
  hash of the transaction the lookup returned, the item and quantity of the decoded log, and
  as total \<open>parseInt(tx.value)\<close>, which depends on nothing but the attached value. When
  \<open>tx.value\<close> is a string of decimal digits denoting at most \<open>2 ^ 53\<close>, that total is the
  attached value.
\<close>

lemma stored_receipt:
  assumes r: "resolve w l = Inr (it, q, tx)"
  shows "STOREFRONT_PURCHASES (fst (processPurchases w [l] s)) (tx_hash tx) =
           Some \<lparr>receipt_from = tx_from tx, item = it, quantity = parseInt q,
                 total = parseInt (tx_value tx), transactionId = tx_hash tx\<rparr> \<and>
         getTransaction w (transactionHash l) = Inr (Some tx) \<and>
         (decimalDigits (tx_value tx) \<and> mathInt 10 (tx_value tx) \<le> 2 ^ 53 \<longrightarrow>
            parseInt (tx_value tx) = Num (int (mathInt 10 (tx_value tx))))"
proof (intro conjI impI)
  show "STOREFRONT_PURCHASES (fst (processPurchases w [l] s)) (tx_hash tx) =
           Some \<lparr>receipt_from = tx_from tx, item = it, quantity = parseInt q,
                 total = parseInt (tx_value tx), transactionId = tx_hash tx\<rparr>"
    using single_delivery[OF r, of s] unfolding makeReceipt_def .
  show "getTransaction w (transactionHash l) = Inr (Some tx)"
    using r by (rule resolve_lookup)
  show "parseInt (tx_value tx) = Num (int (mathInt 10 (tx_value tx)))"
    if "decimalDigits (tx_value tx) \<and> mathInt 10 (tx_value tx) \<le> 2 ^ 53"
    using that by (simp add: parseInt_decimal toNumber_exact)
qed

text \<open>A transaction from \<open>0xA\<close> with value 300 emits \<open>ItemPurchased("sneakers", 2)\<close>: the
  entry has the total 300.\<close>

lemma sneakers_receipt:
  "STOREFRONT_PURCHASES (fst (processPurchases demoEnv [sneakersLog] initial)) ''0xabc'' =
     Some \<lparr>receipt_from = ''0xA'', item = ''sneakers'', quantity = Num 2, total = Num 300,
           transactionId = ''0xabc''\<rparr>"
proof -
  let ?tx = "\<lparr>tx_hash = ''0xabc'', tx_from = ''0xA'', tx_value = ''300''\<rparr>"
  note T = stored_receipt[OF demo_sneakers, of initial]
  from T have "decimalDigits (tx_value ?tx) \<and> mathInt 10 (tx_value ?tx) \<le> 2 ^ 53 \<longrightarrow>
                 parseInt (tx_value ?tx) = Num (int (mathInt 10 (tx_value ?tx)))"
    by blast
  moreover have "decimalDigits (tx_value ?tx) \<and> mathInt 10 (tx_value ?tx) \<le> 2 ^ 53"
    by (simp add: demo_values)
  ultimately have "parseInt (tx_value ?tx) = Num (int (mathInt 10 (tx_value ?tx)))"
    by blast
  then have t: "parseInt ''300'' = Num 300" by (simp add: demo_values(5))
  from T have "STOREFRONT_PURCHASES (fst (processPurchases demoEnv [sneakersLog] initial))
                 (tx_hash ?tx) =
     Some \<lparr>receipt_from = tx_from ?tx, item = ''sneakers'', quantity = parseInt ''2'',
           total = parseInt (tx_value ?tx), transactionId = tx_hash ?tx\<rparr>"
    by blast
  then show ?thesis by (simp add: t demo_values(2) del: processPurchases.simps)
qed

text \<open>
  Claim C7: the total of a stored receipt is the value attached to the transaction, taken
  from the lookup. The code means it so, storing \<open>parseInt(tx.value)\<close> and printing
  \<open>tx.value\<close> as the total in the same step, but the stored total is a double. For the
  transaction \<open>0xbig\<close> the lookup gives the value 9007199254740993 (\<open>2 ^ 53 + 1\<close> wei,
  under a hundredth of an ether): the line says 9007199254740993 and the receipt says
  9007199254740992.
\<close>

theorem receipt_total_rounded:
  "getTransaction demoEnv (transactionHash bigLog) =
     Inr (Some \<lparr>tx_hash = ''0xbig'', tx_from = ''0xB'', tx_value = ''9007199254740993''\<rparr>) \<and>
   mathInt 10 ''9007199254740993'' = 9007199254740993 \<and>
   processPurchases demoEnv [bigLog] initial =
     (initial\<lparr>STOREFRONT_PURCHASES := [''0xbig'' \<mapsto>
          \<lparr>receipt_from = ''0xB'', item = ''sneakers'', quantity = Num 2,
           total = Num 9007199254740992, transactionId = ''0xbig''\<rparr>],
        console := [''[0xbig] 2 of '' @ [CHR 0x22] @ ''sneakers'' @ [CHR 0x22] @
                    '' were purchased by 0xB for 9007199254740993 wei'']\<rparr>, None) \<and>
   Num 9007199254740992 \<noteq> Num 9007199254740993"
proof -
  have a: "getTransaction demoEnv (transactionHash bigLog) =
     Inr (Some \<lparr>tx_hash = ''0xbig'', tx_from = ''0xB'', tx_value = ''9007199254740993''\<rparr>)"
    using demo_big by (rule resolve_lookup)
  have b: "processPurchases demoEnv [bigLog] initial =
     (initial\<lparr>STOREFRONT_PURCHASES := [''0xbig'' \<mapsto>
          \<lparr>receipt_from = ''0xB'', item = ''sneakers'', quantity = Num 2,
           total = Num 9007199254740992, transactionId = ''0xbig''\<rparr>],
        console := [''[0xbig] 2 of '' @ [CHR 0x22] @ ''sneakers'' @ [CHR 0x22] @
                    '' were purchased by 0xB for 9007199254740993 wei'']\<rparr>, None)"
    unfolding processPurchases_single_ok[OF demo_big]
    by (simp add: makeReceipt_def purchaseLine_def demo_values initial_def)
  from a b demo_values(4) show ?thesis by simp
qed

subsection \<open>C8: the lines written\<close>

text \<open>
  Claim C8. The lines a batch adds to the console are, in order, one for each log processed
  before the first failure, that is one for each receipt stored; a log that fails adds none.
  The line of a log is
  \<open>[<tx.hash>] <quantity> of "<item>" were purchased by <tx.from> for <tx.value> wei\<close>,
  with the quantity as decoded and the value as the lookup returned it.
\<close>

theorem one_line_per_receipt:
  "console (fst (processPurchases w ls s)) = console s @ linesOf w ls \<and>
   length (linesOf w ls) = length (upserts w ls) \<and>
   length (linesOf w ls) = length (processed w ls) \<and>
   map Some (linesOf w ls) = map (lineOf w) (processed w ls) \<and>
   (\<forall>it q tx. resolve w l = Inr (it, q, tx) \<longrightarrow>
      lineOf w l = Some (''['' @ tx_hash tx @ ''] '' @ q @ '' of '' @ [CHR 0x22] @ it @ [CHR 0x22]
                          @ '' were purchased by '' @ tx_from tx @ '' for '' @ tx_value tx
                          @ '' wei'') \<and>
      console (fst (processPurchases w [l] s)) =
        console s @ [''['' @ tx_hash tx @ ''] '' @ q @ '' of '' @ [CHR 0x22] @ it @ [CHR 0x22]
                       @ '' were purchased by '' @ tx_from tx @ '' for '' @ tx_value tx
                       @ '' wei'']) \<and>
   (\<forall>e. resolve w l = Inl e \<longrightarrow>
      lineOf w l = None \<and> processPurchases w [l] s = (s, Some e))"
proof (intro conjI allI impI)
  show "console (fst (processPurchases w ls s)) = console s @ linesOf w ls"
    by (rule processPurchases_console)
  have "length (map Some (linesOf w ls)) = length (map (lineOf w) (processed w ls))"
    by (simp only: processed_lines)
  then show len: "length (linesOf w ls) = length (processed w ls)" by simp
  then show "length (linesOf w ls) = length (upserts w ls)"
    by (simp add: processed_entries)
  show "map Some (linesOf w ls) = map (lineOf w) (processed w ls)"
    by (rule processed_lines)
next
  fix it q tx
  assume r: "resolve w l = Inr (it, q, tx)"
  then show "lineOf w l = Some (''['' @ tx_hash tx @ ''] '' @ q @ '' of '' @ [CHR 0x22] @ it @ [CHR 0x22]
                          @ '' were purchased by '' @ tx_from tx @ '' for '' @ tx_value tx
                          @ '' wei'')"
    by (simp add: lineOf_def purchaseLine_def)
  from r show "console (fst (processPurchases w [l] s)) =
        console s @ [''['' @ tx_hash tx @ ''] '' @ q @ '' of '' @ [CHR 0x22] @ it @ [CHR 0x22]
                       @ '' were purchased by '' @ tx_from tx @ '' for '' @ tx_value tx
                       @ '' wei'']"
    by (simp add: processPurchases_single_ok purchaseLine_def del: processPurchases.simps)
next
  fix e
  assume r: "resolve w l = Inl e"
  then show "lineOf w l = None" by (simp add: lineOf_def)
  from r show "processPurchases w [l] s = (s, Some e)" by (rule processPurchases_single_fail)
qed

text \<open>The purchase of two sneakers for 300 wei, followed by a log whose transaction is
  unknown: one line.\<close>

theorem one_line_per_receipt_witness:
  "console (fst (processPurchases demoEnv [sneakersLog, lostLog] initial)) =
     [''[0xabc] 2 of '' @ [CHR 0x22] @ ''sneakers'' @ [CHR 0x22]
        @ '' were purchased by 0xA for 300 wei''] \<and>
   processPurchases demoEnv [lostLog] initial = (initial, Some NotFound)"
proof -
  note T = one_line_per_receipt[of demoEnv "[sneakersLog, lostLog]" initial]
  from T[of sneakersLog]
  have c: "console (fst (processPurchases demoEnv [sneakersLog, lostLog] initial))
             = console initial @ linesOf demoEnv [sneakersLog, lostLog]" by blast
  from one_line_per_receipt[of demoEnv "[]" initial lostLog] demo_lost
  have f: "processPurchases demoEnv [lostLog] initial = (initial, Some NotFound)" by blast
  have "linesOf demoEnv [sneakersLog, lostLog] =
          [''[0xabc] 2 of '' @ [CHR 0x22] @ ''sneakers'' @ [CHR 0x22]
             @ '' were purchased by 0xA for 300 wei'']"
    by (simp add: demo_sneakers demo_lost purchaseLine_def)
  with c f show ?thesis by (simp add: initial_def)
qed

subsection \<open>C9: the invariant of the table\<close>

lemma ledger_inv_fields [simp]:
  "ledger_inv w (s\<lparr>pastLogsRequests := rs\<rparr>) = ledger_inv w s"
  "ledger_inv w (s\<lparr>console := c\<rparr>) = ledger_inv w s"
  "ledger_inv w (s\<lparr>subscriptions := fs\<rparr>) = ledger_inv w s"
  by (simp_all add: ledger_inv_def)

lemma inv_initial: "ledger_inv w initial"
  by (simp add: ledger_inv_def initial_def)

lemma inv_processPurchases:
  assumes "ledger_inv w s"
  shows "ledger_inv w (fst (processPurchases w ls s))"
  unfolding ledger_inv_def
proof (intro allI impI)
  fix k r
  let ?s' = "fst (processPurchases w ls s)"
  assume kr: "STOREFRONT_PURCHASES ?s' k = Some r"
  from ledger_entry_cases[of w ls s k]
  show "transactionId r = k \<and>
        (\<exists>h tx. getTransaction w h = Inr (Some tx) \<and> tx_hash tx = k \<and>
                 receipt_from r = tx_from tx \<and> total r = parseInt (tx_value tx))"
  proof
    assume "STOREFRONT_PURCHASES ?s' k = STOREFRONT_PURCHASES s k"
    with kr have "STOREFRONT_PURCHASES s k = Some r" by simp
    with assms show ?thesis unfolding ledger_inv_def by blast
  next
    assume "\<exists>l \<in> set ls. \<exists>it q tx. resolve w l = Inr (it, q, tx) \<and> k = tx_hash tx \<and>
              STOREFRONT_PURCHASES ?s' k = Some (makeReceipt it q tx)"
    then obtain l it q tx where res: "resolve w l = Inr (it, q, tx)" and k: "k = tx_hash tx"
      and v: "STOREFRONT_PURCHASES ?s' k = Some (makeReceipt it q tx)" by blast
    from v kr have r: "r = makeReceipt it q tx" by simp
    from resolve_lookup[OF res] have "getTransaction w (transactionHash l) = Inr (Some tx)" .
    with r k show ?thesis by (auto simp: makeReceipt_def)
  qed
qed

lemma inv_scan:
  "ledger_inv w s \<Longrightarrow> ledger_inv w (fst (indexPastPurchases_from w i H s))"
proof (induction w i H s rule: indexPastPurchases_from.induct)
  case (1 w i H s)
  let ?s1 = "s\<lparr>pastLogsRequests := pastLogsRequests s @ [requestAt w i]\<rparr>"
  show ?case
  proof (cases "i < H")
    case False
    with "1.prems" show ?thesis by (simp add: scan_done)
  next
    case True
    show ?thesis
    proof (cases "getPastLogs w (requestAt w i)")
      case (Inl e)
      with True "1.prems" show ?thesis by (simp add: scan_step)
    next
      case (Inr ls)
      obtain s2 r2 where p: "processPurchases w ls ?s1 = (s2, r2)" by force
      from "1.prems" have "ledger_inv w ?s1" by simp
      from inv_processPurchases[OF this, of ls] p have i2: "ledger_inv w s2" by simp
      show ?thesis
      proof (cases r2)
        case (Some e)
        with True Inr p i2 show ?thesis by (simp add: scan_step)
      next
        case None
        from "1.IH"[OF True refl refl refl refl, of ls s2 None] Inr p None i2
        have "ledger_inv w (fst (indexPastPurchases_from w (i + 500000) H s2))"
          by (simp add: requestAt_def)
        with True Inr p None show ?thesis by (simp add: scan_step)
      qed
    qed
  qed
qed

lemma inv_callback:
  "ledger_inv w s \<Longrightarrow> ledger_inv w (fst (subscription_callback w err l s))"
proof (cases err)
  case None
  assume i: "ledger_inv w s"
  obtain s' r where p: "processPurchases w [l] s = (s', r)" by force
  from inv_processPurchases[OF i, of "[l]"] p have "ledger_inv w s'" by simp
  with None p show ?thesis
    by (cases r) (simp_all add: subscription_callback_def del: processPurchases.simps)
next
  case (Some e)
  assume "ledger_inv w s"
  with Some show ?thesis by (simp add: subscription_callback_def)
qed

lemma inv_start: "ledger_inv w s \<Longrightarrow> ledger_inv w (fst (start w s))"
proof (cases "getBlockNumber w")
  case (Inl e)
  assume "ledger_inv w s"
  with Inl show ?thesis by (simp add: start_def)
next
  case (Inr n)
  assume "ledger_inv w s"
  then have "ledger_inv w (s\<lparr>console := console s @ [connectedLine n],
                              subscriptions := subscriptions s @ [PURCHASE_FILTER w]\<rparr>)"
    by simp
  from inv_scan[OF this, of 0 n] Inr show ?thesis
    by (simp add: start_def indexPastPurchases_def)
qed

text \<open>
  Claim C9. The table of the initial state satisfies \<open>ledger_inv\<close>: every entry is stored
  under its own \<open>transactionId\<close>, and that key is the hash of a transaction the lookup
  returns, from which the entry has its sender and its total. Every operation keeps the
  invariant, whether it ends with an error or not: a batch, a scan of the backfill, a call
  of the subscription's callback, and \<open>start\<close>.
\<close>

theorem ledger_invariant:
  "ledger_inv w initial \<and>
   (ledger_inv w s \<longrightarrow>
      ledger_inv w (fst (processPurchases w ls s)) \<and>
      ledger_inv w (fst (indexPastPurchases w H s)) \<and>
      ledger_inv w (fst (subscription_callback w err l s)) \<and>
      ledger_inv w (fst (start w s)))"
  using inv_initial inv_processPurchases inv_scan[of w s 0 H] inv_callback inv_start
  by (simp add: indexPastPurchases_def)

text \<open>The table after \<open>start\<close> on the demo chain and a live delivery of the sneakers
  purchase: the entry under \<open>0xabc\<close> names \<open>0xabc\<close>.\<close>

theorem ledger_invariant_witness:
  "ledger_inv demoEnv (fst (subscription_callback demoEnv None sneakersLog (fst (start demoEnv initial)))) \<and>
   map_option transactionId
     (STOREFRONT_PURCHASES
        (fst (subscription_callback demoEnv None sneakersLog (fst (start demoEnv initial)))) ''0xabc'')
     = Some ''0xabc''"
proof -
  from ledger_invariant[of demoEnv initial] have i0: "ledger_inv demoEnv initial" by blast
  with ledger_invariant[of demoEnv initial]
  have i1: "ledger_inv demoEnv (fst (start demoEnv initial))" by blast
  with ledger_invariant[of demoEnv "fst (start demoEnv initial)" "[]" 0 None sneakersLog]
  have i2: "ledger_inv demoEnv
              (fst (subscription_callback demoEnv None sneakersLog (fst (start demoEnv initial))))"
    by blast
  have "STOREFRONT_PURCHASES
          (fst (subscription_callback demoEnv None sneakersLog (fst (start demoEnv initial)))) ''0xabc''
        = Some (makeReceipt ''sneakers'' ''2''
                  \<lparr>tx_hash = ''0xabc'', tx_from = ''0xA'', tx_value = ''300''\<rparr>)"
    by (simp add: subscription_callback_def processPurchases_single_ok[OF demo_sneakers]
          del: processPurchases.simps)
  then have "map_option transactionId
     (STOREFRONT_PURCHASES
        (fst (subscription_callback demoEnv None sneakersLog (fst (start demoEnv initial)))) ''0xabc'')
     = Some ''0xabc''"
    by (simp add: makeReceipt_def)
  with i2 show ?thesis by blast
qed

subsection \<open>C10: what a batch changes\<close>

lemma untouched_key:
  assumes "\<forall>l \<in> set (processed w ls). \<forall>e. entryOf w l = Some e \<longrightarrow> fst e \<noteq> k"
  shows "STOREFRONT_PURCHASES (fst (processPurchases w ls s)) k = STOREFRONT_PURCHASES s k"
proof -
  have "k \<notin> fst ` set (rev (upserts w ls))"
  proof
    assume "k \<in> fst ` set (rev (upserts w ls))"
    then obtain l where l: "l \<in> set (processed w ls)" and k: "k = fst (the (entryOf w l))"
      unfolding processed_entries by auto
    from processed_resolved[OF l] obtain e where ee: "entryOf w l = Some e" by blast
    with k have "k = fst e" by simp
    moreover from assms l ee have "fst e \<noteq> k" by blast
    ultimately show False by simp
  qed
  then have "map_of (rev (upserts w ls)) k = None" by (simp add: map_of_eq_None_iff)
  then show ?thesis by (simp add: processPurchases_ledger map_add_def)
qed

lemma last_write_wins:
  assumes p: "processed w ls = xs @ l # ys"
      and e: "entryOf w l = Some (k, r)"
      and later: "\<forall>l' \<in> set ys. \<forall>e. entryOf w l' = Some e \<longrightarrow> fst e \<noteq> k"
  shows "STOREFRONT_PURCHASES (fst (processPurchases w ls s)) k = Some r"
proof -
  let ?f = "\<lambda>l. the (entryOf w l)"
  have us: "upserts w ls = map ?f xs @ (k, r) # map ?f ys"
    unfolding processed_entries p using e by simp
  have "k \<notin> fst ` set (rev (map ?f ys))"
  proof
    assume "k \<in> fst ` set (rev (map ?f ys))"
    then obtain l' where l': "l' \<in> set ys" and k: "k = fst (?f l')" by auto
    from l' p have "l' \<in> set (processed w ls)" by simp
    from processed_resolved[OF this] obtain e' where ee: "entryOf w l' = Some e'" by blast
    with k have "k = fst e'" by simp
    moreover from later l' ee have "fst e' \<noteq> k" by blast
    ultimately show False by simp
  qed
  then have none: "map_of (rev (map ?f ys)) k = None" by (simp add: map_of_eq_None_iff)
  have "map_of (rev (upserts w ls)) k = Some r"
    unfolding us by (simp add: map_add_def none)
  then show ?thesis by (simp add: processPurchases_ledger map_add_def)
qed

text \<open>
  Claim C10. Let \<open>processed w ls\<close> be the logs of the batch processed before the first
  failure (all of them when there is none), each with the entry it writes: its key is the
  hash of the transaction the lookup returned. A key that is not the key of a processed log
  keeps its value; no key of the table is lost; and the value of a processed key is the
  receipt of the last processed log with that key, whatever the table held there before.
\<close>

theorem batch_frame:
  "(\<forall>k. (\<forall>l \<in> set (processed w ls). \<forall>e. entryOf w l = Some e \<longrightarrow> fst e \<noteq> k) \<longrightarrow>
        STOREFRONT_PURCHASES (fst (processPurchases w ls s)) k = STOREFRONT_PURCHASES s k) \<and>
   dom (STOREFRONT_PURCHASES s) \<subseteq> dom (STOREFRONT_PURCHASES (fst (processPurchases w ls s))) \<and>
   (\<forall>xs l ys k r.
      processed w ls = xs @ l # ys \<and> entryOf w l = Some (k, r) \<and>
      (\<forall>l' \<in> set ys. \<forall>e. entryOf w l' = Some e \<longrightarrow> fst e \<noteq> k) \<longrightarrow>
      STOREFRONT_PURCHASES (fst (processPurchases w ls s)) k = Some r) \<and>
   (\<forall>l \<in> set (processed w ls). \<exists>it q tx.
      resolve w l = Inr (it, q, tx) \<and> entryOf w l = Some (tx_hash tx, makeReceipt it q tx)) \<and>
   (\<exists>rest. ls = processed w ls @ rest) \<and>
   (snd (processPurchases w ls s) = None \<longrightarrow> processed w ls = ls) \<and>
   (\<forall>e. snd (processPurchases w ls s) = Some e \<longrightarrow>
      (\<exists>l rest. ls = processed w ls @ l # rest \<and> resolve w l = Inl e))"
proof (intro conjI)
  show "\<forall>k. (\<forall>l \<in> set (processed w ls). \<forall>e. entryOf w l = Some e \<longrightarrow> fst e \<noteq> k) \<longrightarrow>
        STOREFRONT_PURCHASES (fst (processPurchases w ls s)) k = STOREFRONT_PURCHASES s k"
    using untouched_key by blast
  show "dom (STOREFRONT_PURCHASES s) \<subseteq> dom (STOREFRONT_PURCHASES (fst (processPurchases w ls s)))"
    by (rule ledger_grows)
  show "\<forall>xs l ys k r.
      processed w ls = xs @ l # ys \<and> entryOf w l = Some (k, r) \<and>
      (\<forall>l' \<in> set ys. \<forall>e. entryOf w l' = Some e \<longrightarrow> fst e \<noteq> k) \<longrightarrow>
      STOREFRONT_PURCHASES (fst (processPurchases w ls s)) k = Some r"
    using last_write_wins by blast
  show "\<forall>l \<in> set (processed w ls). \<exists>it q tx.
      resolve w l = Inr (it, q, tx) \<and> entryOf w l = Some (tx_hash tx, makeReceipt it q tx)"
    using processed_resolved by blast
  show "\<exists>rest. ls = processed w ls @ rest"
    by (rule processed_prefix)
  show "snd (processPurchases w ls s) = None \<longrightarrow> processed w ls = ls"
    by (simp add: processPurchases_failure processed_all)
  show "\<forall>e. snd (processPurchases w ls s) = Some e \<longrightarrow>
      (\<exists>l rest. ls = processed w ls @ l # rest \<and> resolve w l = Inl e)"
    unfolding processPurchases_failure using processed_stops by blast
qed

text \<open>A table with an older receipt under \<open>0xabc\<close> and one under \<open>0xold\<close>; the batch is the
  sneakers purchase of transaction \<open>0xabc\<close>, then a log that fails, then one more purchase.
  The entry under \<open>0xabc\<close> is replaced, the one under \<open>0xold\<close> stays, and the purchase
  after the failure is not stored.\<close>

theorem batch_frame_witness:
  "processed demoEnv [sneakersLog, lostLog, bigLog] = [sneakersLog] \<and>
   STOREFRONT_PURCHASES (fst (processPurchases demoEnv [sneakersLog, lostLog, bigLog] staleState))
       ''0xabc''
     = Some (makeReceipt ''sneakers'' ''2''
               \<lparr>tx_hash = ''0xabc'', tx_from = ''0xA'', tx_value = ''300''\<rparr>) \<and>
   STOREFRONT_PURCHASES (fst (processPurchases demoEnv [sneakersLog, lostLog, bigLog] staleState))
       ''0xold''
     = STOREFRONT_PURCHASES staleState ''0xold'' \<and>
   STOREFRONT_PURCHASES (fst (processPurchases demoEnv [sneakersLog, lostLog, bigLog] staleState))
       ''0xbig''
     = None"
proof -
  let ?ls = "[sneakersLog, lostLog, bigLog]"
  let ?tx = "\<lparr>tx_hash = ''0xabc'', tx_from = ''0xA'', tx_value = ''300''\<rparr>"
  have p: "processed demoEnv ?ls = [sneakersLog]"
    by (simp add: demo_sneakers demo_lost)
  have e: "entryOf demoEnv sneakersLog = Some (''0xabc'', makeReceipt ''sneakers'' ''2'' ?tx)"
    by (simp add: entryOf_def demo_sneakers)
  note T = batch_frame[of demoEnv ?ls staleState]
  have h1: "processed demoEnv ?ls = [] @ sneakersLog # [] \<and>
            entryOf demoEnv sneakersLog = Some (''0xabc'', makeReceipt ''sneakers'' ''2'' ?tx) \<and>
            (\<forall>l' \<in> set []. \<forall>e. entryOf demoEnv l' = Some e \<longrightarrow> fst e \<noteq> ''0xabc'')"
    using p e by simp
  from T have "\<forall>xs l ys k r.
      processed demoEnv ?ls = xs @ l # ys \<and> entryOf demoEnv l = Some (k, r) \<and>
      (\<forall>l' \<in> set ys. \<forall>e. entryOf demoEnv l' = Some e \<longrightarrow> fst e \<noteq> k) \<longrightarrow>
      STOREFRONT_PURCHASES (fst (processPurchases demoEnv ?ls staleState)) k = Some r"
    by blast
  with h1 have a: "STOREFRONT_PURCHASES (fst (processPurchases demoEnv ?ls staleState)) ''0xabc''
                     = Some (makeReceipt ''sneakers'' ''2'' ?tx)"
    by blast
  have h2: "\<forall>l \<in> set (processed demoEnv ?ls). \<forall>e'. entryOf demoEnv l = Some e' \<longrightarrow> fst e' \<noteq> ''0xold''"
    unfolding p using e by simp
  have h3: "\<forall>l \<in> set (processed demoEnv ?ls). \<forall>e'. entryOf demoEnv l = Some e' \<longrightarrow> fst e' \<noteq> ''0xbig''"
    unfolding p using e by simp
  from T have frame: "\<forall>k. (\<forall>l \<in> set (processed demoEnv ?ls). \<forall>e. entryOf demoEnv l = Some e \<longrightarrow> fst e \<noteq> k) \<longrightarrow>
        STOREFRONT_PURCHASES (fst (processPurchases demoEnv ?ls staleState)) k
          = STOREFRONT_PURCHASES staleState k"
    by blast
  from frame h2 have b: "STOREFRONT_PURCHASES (fst (processPurchases demoEnv ?ls staleState)) ''0xold''
                     = STOREFRONT_PURCHASES staleState ''0xold''"
    by blast
  from frame h3 have "STOREFRONT_PURCHASES (fst (processPurchases demoEnv ?ls staleState)) ''0xbig''
                     = STOREFRONT_PURCHASES staleState ''0xbig''"
    by blast
  then have c: "STOREFRONT_PURCHASES (fst (processPurchases demoEnv ?ls staleState)) ''0xbig'' = None"
    by (simp add: staleState_def initial_def del: processPurchases.simps)
  from p a b c show ?thesis by blast
qed

end
